theory Spec2Isabelle
  imports Complex_Main
begin

section \<open>The replay buffer of ddpg.py\<close>

text \<open>
  The development follows \<^verbatim>\<open>src/ddpg.py\<close>. Python integers are \<open>int\<close>. The entries of
  the numpy arrays (\<^verbatim>\<open>float32\<close> in the source) are idealised as \<open>real\<close>: rounding on
  storage and in arithmetic is not part of the model. Exceptions are values of the type
  \<open>error\<close>, and a method that can raise returns \<open>error + 'a\<close>.
\<close>

datatype error = ValueError | IndexError | ZeroDivisionError

definition bind_err :: "error + 'a \<Rightarrow> ('a \<Rightarrow> error + 'b) \<Rightarrow> error + 'b" where
  "bind_err m f = (case m of Inl e \<Rightarrow> Inl e | Inr x \<Rightarrow> f x)"

subsection \<open>Two-dimensional numpy arrays\<close>

text \<open>
  A two-dimensional array is its list of rows together with the number of columns of its
  shape (which numpy keeps also when there is no row).
\<close>

record ndarray =
  ncols :: nat
  rws :: "real list list"

text \<open>\<^verbatim>\<open>np.zeros((n, m))\<close>: numpy refuses a negative dimension with ValueError.\<close>

definition np_zeros :: "int \<Rightarrow> int \<Rightarrow> error + ndarray" where
  "np_zeros n m =
     (if n < 0 \<or> m < 0 then Inl ValueError
      else Inr \<lparr>ncols = nat m, rws = replicate (nat n) (replicate (nat m) 0)\<rparr>)"

text \<open>
  An integer index \<open>i\<close> into an axis of size \<open>n\<close>: valid for \<open>-n \<le> i < n\<close>, a negative
  index counting from the end; IndexError otherwise.
\<close>

definition np_index :: "nat \<Rightarrow> int \<Rightarrow> error + nat" where
  "np_index n i =
     (if - int n \<le> i \<and> i < int n then Inr (nat (if i < 0 then int n + i else i))
      else Inl IndexError)"

text \<open>
  Broadcasting a vector to a row of \<open>m\<close> entries: a vector of \<open>m\<close> entries is taken as it
  is, a vector of one entry is repeated, any other length is a ValueError.
\<close>

definition broadcast_to :: "nat \<Rightarrow> real list \<Rightarrow> error + real list" where
  "broadcast_to m v =
     (if length v = m then Inr v
      else if length v = 1 then Inr (replicate m (hd v))
      else Inl ValueError)"

text \<open>The assignment \<^verbatim>\<open>a[i, :] = v\<close>.\<close>

definition set_row :: "ndarray \<Rightarrow> int \<Rightarrow> real list \<Rightarrow> error + ndarray" where
  "set_row a i v =
     bind_err (np_index (length (rws a)) i) (\<lambda>j.
     bind_err (broadcast_to (ncols a) v) (\<lambda>row.
       Inr (a\<lparr>rws := (rws a)[j := row]\<rparr>)))"

text \<open>
  The indexing \<^verbatim>\<open>a[indices]\<close> with an integer array: a new array whose rows are copies
  of the rows named by the indices, in their order.
\<close>

definition take_rows :: "ndarray \<Rightarrow> int list \<Rightarrow> error + ndarray" where
  "take_rows a idx =
     (if \<forall>i \<in> set idx. - int (length (rws a)) \<le> i \<and> i < int (length (rws a))
      then Inr \<lparr>ncols = ncols a,
                rws = map (\<lambda>i. rws a ! nat (if i < 0 then int (length (rws a)) + i else i)) idx\<rparr>
      else Inl IndexError)"

subsection \<open>MemoryBuffer\<close>

record MemoryBuffer =
  capacity :: int
  state :: ndarray
  reward :: ndarray
  s_next :: ndarray
  pointer :: int

text \<open>\<^verbatim>\<open>MemoryBuffer.__init__(capacity, s_dim)\<close>\<close>

definition MemoryBuffer_init :: "int \<Rightarrow> int \<Rightarrow> error + MemoryBuffer" where
  "MemoryBuffer_init cap s_dim =
     bind_err (np_zeros cap s_dim) (\<lambda>st.
     bind_err (np_zeros cap 1) (\<lambda>rw.
     bind_err (np_zeros cap s_dim) (\<lambda>sn.
       Inr \<lparr>capacity = cap, state = st, reward = rw, s_next = sn, pointer = 0\<rparr>)))"

text \<open>
  The four statements of \<^verbatim>\<open>store_transition\<close>, one definition each. The reward is a
  scalar; numpy broadcasts it to the row as it broadcasts a vector of one entry.
\<close>

definition assign_state :: "MemoryBuffer \<Rightarrow> real list \<Rightarrow> error + MemoryBuffer" where
  "assign_state b s =
     bind_err (set_row (state b) (pointer b) s) (\<lambda>a. Inr (b\<lparr>state := a\<rparr>))"

definition assign_reward :: "MemoryBuffer \<Rightarrow> real \<Rightarrow> error + MemoryBuffer" where
  "assign_reward b r =
     bind_err (set_row (reward b) (pointer b) [r]) (\<lambda>a. Inr (b\<lparr>reward := a\<rparr>))"

definition assign_s_next :: "MemoryBuffer \<Rightarrow> real list \<Rightarrow> error + MemoryBuffer" where
  "assign_s_next b sn =
     bind_err (set_row (s_next b) (pointer b) sn) (\<lambda>a. Inr (b\<lparr>s_next := a\<rparr>))"

definition advance_pointer :: "MemoryBuffer \<Rightarrow> error + MemoryBuffer" where
  "advance_pointer b =
     (if capacity b = 0 then Inl ZeroDivisionError
      else Inr (b\<lparr>pointer := (pointer b + 1) mod capacity b\<rparr>))"

text \<open>\<^verbatim>\<open>MemoryBuffer.store_transition(s, r, s_next)\<close>\<close>

definition store_transition ::
  "MemoryBuffer \<Rightarrow> real list \<Rightarrow> real \<Rightarrow> real list \<Rightarrow> error + MemoryBuffer" where
  "store_transition b s r sn =
     bind_err (assign_state b s) (\<lambda>b1.
     bind_err (assign_reward b1 r) (\<lambda>b2.
     bind_err (assign_s_next b2 sn) (\<lambda>b3.
       advance_pointer b3)))"

text \<open>
  Modelled from the spec: \<^verbatim>\<open>np.random.randint(low, high, size=[num])\<close>, which is code
  of numpy and not of this repository. The specification has it draw \<open>num\<close> indices
  independently and uniformly from \<open>[low, high)\<close>, with replacement. The randomness is
  the argument \<open>raw\<close>: \<open>raw k\<close> is the raw number that the generator spends on the
  index at position \<open>k\<close>, and it is reduced into the range that the call asks for. A
  negative size is a ValueError; a size of 0 gives the empty array whatever the range;
  otherwise an empty range is a ValueError.
\<close>

definition randint :: "int \<Rightarrow> int \<Rightarrow> int \<Rightarrow> (nat \<Rightarrow> nat) \<Rightarrow> error + int list" where
  "randint low high num raw =
     (if num < 0 then Inl ValueError
      else if num = 0 then Inr []
      else if high \<le> low then Inl ValueError
      else Inr (map (\<lambda>k. low + int (raw k mod nat (high - low))) [0..<nat num]))"

text \<open>
  \<^verbatim>\<open>MemoryBuffer.sample(num)\<close>. The method is given the store and the randomness and
  returns, with the three gathered arrays, the store as it leaves it.
\<close>

definition sample ::
  "MemoryBuffer \<Rightarrow> int \<Rightarrow> (nat \<Rightarrow> nat) \<Rightarrow>
     error + ((ndarray \<times> ndarray \<times> ndarray) \<times> MemoryBuffer)" where
  "sample b num raw =
     bind_err (randint 0 (capacity b) num raw) (\<lambda>indices.
     bind_err (take_rows (state b) indices) (\<lambda>st.
     bind_err (take_rows (reward b) indices) (\<lambda>rw.
     bind_err (take_rows (s_next b) indices) (\<lambda>sn.
       Inr ((st, rw, sn), b)))))"

text \<open>
  A transition is \<open>(s, r, s_next)\<close>. \<open>store_all\<close> is a sequence of calls of
  \<^verbatim>\<open>store_transition\<close>, stopping at the first one that raises.
\<close>

type_synonym transition = "real list \<times> real \<times> real list"

fun store_all :: "MemoryBuffer \<Rightarrow> transition list \<Rightarrow> error + MemoryBuffer" where
  "store_all b [] = Inr b"
| "store_all b (t # ts) =
     bind_err (store_transition b (fst t) (fst (snd t)) (snd (snd t))) (\<lambda>b'. store_all b' ts)"

text \<open>
  Of the calls \<open>0, \<dots>, N - 1\<close> on a fresh store of capacity \<open>C\<close>, the ones that write
  row \<open>i\<close>, in order, and the most recent of them.
\<close>

definition writers :: "nat \<Rightarrow> nat \<Rightarrow> nat \<Rightarrow> nat list" where
  "writers C N i = filter (\<lambda>j. j mod C = i) [0..<N]"

definition most_recent_writer :: "nat \<Rightarrow> nat \<Rightarrow> nat \<Rightarrow> nat option" where
  "most_recent_writer C N i =
     (if writers C N i = [] then None else Some (last (writers C N i)))"

text \<open>
  The shape that the constructor gives a store of positive capacity and that
  \<^verbatim>\<open>store_transition\<close> keeps: each array has \<open>capacity\<close> rows and the pointer is a row
  index.
\<close>

definition buffer_ok :: "MemoryBuffer \<Rightarrow> bool" where
  "buffer_ok b \<longleftrightarrow>
     0 < capacity b \<and>
     length (rws (state b)) = nat (capacity b) \<and>
     length (rws (reward b)) = nat (capacity b) \<and>
     length (rws (s_next b)) = nat (capacity b) \<and>
     ncols (reward b) = 1 \<and>
     ncols (s_next b) = ncols (state b) \<and>
     0 \<le> pointer b \<and> pointer b < capacity b"

subsection \<open>Prefill\<close>

text \<open>
  \<^verbatim>\<open>MemoryBuffer.init_buffer(env, agent)\<close>. The environment, the agent's network and the
  random noise of \<^verbatim>\<open>choose_action\<close> are outside the program: they are a world state
  \<open>'w\<close> and two functions on it, \<open>env_reset\<close> for \<^verbatim>\<open>env.reset()\<close> and \<open>act_step\<close>
  for \<^verbatim>\<open>env.step(agent.choose_action(s))\<close>, which returns \<open>(s_next, r, done)\<close> (the
  fourth component, \<^verbatim>\<open>info\<close>, is never read).

  The two nested loops are one recursion on the loop variable \<open>it\<close> and the episode's
  state \<open>s\<close>: leaving the \<^verbatim>\<open>for\<close> loop, by \<^verbatim>\<open>break\<close> or at its end, goes back to
  \<^verbatim>\<open>env.reset()\<close> at the head of \<^verbatim>\<open>while True\<close>. The source does not advance \<open>s\<close>
  inside an episode, and neither does the model. A run that never returns is \<open>None\<close>.
\<close>

definition EP_MAXLEN :: nat where
  "EP_MAXLEN = 200"

partial_function (option) init_loop ::
  "('w \<Rightarrow> real list \<times> 'w) \<Rightarrow> ('w \<Rightarrow> real list \<Rightarrow> (real list \<times> real \<times> bool) \<times> 'w) \<Rightarrow>
   nat \<Rightarrow> real list \<Rightarrow> 'w \<Rightarrow> MemoryBuffer \<Rightarrow> (error + MemoryBuffer \<times> 'w) option"
where
  "init_loop env_reset act_step it s w b =
     (if it < EP_MAXLEN then
        (case act_step w s of ((sn, r, done), w1) \<Rightarrow>
           (case store_transition b s ((r + 8) / 8) sn of
              Inl e \<Rightarrow> Some (Inl e)
            | Inr b1 \<Rightarrow>
                if pointer b1 = 0 then Some (Inr (b1, w1))
                else if done then
                  (case env_reset w1 of (s0, w2) \<Rightarrow> init_loop env_reset act_step 0 s0 w2 b1)
                else init_loop env_reset act_step (it + 1) s w1 b1))
      else (case env_reset w of (s0, w1) \<Rightarrow> init_loop env_reset act_step 0 s0 w1 b))"

definition init_buffer ::
  "('w \<Rightarrow> real list \<times> 'w) \<Rightarrow> ('w \<Rightarrow> real list \<Rightarrow> (real list \<times> real \<times> bool) \<times> 'w) \<Rightarrow>
   'w \<Rightarrow> MemoryBuffer \<Rightarrow> (error + MemoryBuffer \<times> 'w) option" where
  "init_buffer env_reset act_step w b =
     (case env_reset w of (s0, w1) \<Rightarrow> init_loop env_reset act_step 0 s0 w1 b)"

text \<open>
  What the prefill is to do, said without the store: \<open>rollout\<close> is \<open>k\<close> steps of the
  environment from the state \<open>s\<close> of an episode that has made \<open>it\<close> steps, with the
  transitions \<open>(s, (r + 8) / 8, s_next)\<close> that they give, in order, and the world that
  they leave. After a step that ends an episode (the environment reports \<open>done\<close>, or
  it was the step number \<open>EP_MAXLEN\<close> of the episode) the next step starts from
  \<^verbatim>\<open>env.reset()\<close>; after the last of the \<open>k\<close> steps nothing follows.
  \<^verbatim>\<open>init_buffer\<close> has no \<^verbatim>\<open>s = s_next\<close>: every step of an episode acts on, and stores,
  the state that \<^verbatim>\<open>env.reset()\<close> gave. \<open>prefill_transitions\<close> starts with the first
  \<^verbatim>\<open>env.reset()\<close>.
\<close>

fun rollout ::
  "('w \<Rightarrow> real list \<times> 'w) \<Rightarrow> ('w \<Rightarrow> real list \<Rightarrow> (real list \<times> real \<times> bool) \<times> 'w) \<Rightarrow>
   nat \<Rightarrow> nat \<Rightarrow> real list \<Rightarrow> 'w \<Rightarrow> transition list \<times> 'w" where
  "rollout env_reset act_step 0 it s w = ([], w)"
| "rollout env_reset act_step (Suc k) it s w =
     (case act_step w s of ((sn, r, dn), w1) \<Rightarrow>
        if k = 0 then ([(s, (r + 8) / 8, sn)], w1)
        else if dn \<or> EP_MAXLEN \<le> it + 1 then
          (case env_reset w1 of (s0, w2) \<Rightarrow>
             (case rollout env_reset act_step k 0 s0 w2 of (ts, w3) \<Rightarrow>
                ((s, (r + 8) / 8, sn) # ts, w3)))
        else
          (case rollout env_reset act_step k (it + 1) s w1 of (ts, w3) \<Rightarrow>
             ((s, (r + 8) / 8, sn) # ts, w3)))"

definition prefill_transitions ::
  "('w \<Rightarrow> real list \<times> 'w) \<Rightarrow> ('w \<Rightarrow> real list \<Rightarrow> (real list \<times> real \<times> bool) \<times> 'w) \<Rightarrow>
   nat \<Rightarrow> 'w \<Rightarrow> transition list \<times> 'w" where
  "prefill_transitions env_reset act_step k w =
     (case env_reset w of (s0, w1) \<Rightarrow> rollout env_reset act_step k 0 s0 w1)"

text \<open>
  The prefill as the specification words it: it ends when the pointer is back at 0, or
  early at an episode boundary (the environment reports \<open>done\<close>, or the episode has
  reached \<open>EP_MAXLEN\<close> steps). This is the reading that the code is compared with.
\<close>

fun prefill_spec_loop ::
  "('w \<Rightarrow> real list \<Rightarrow> (real list \<times> real \<times> bool) \<times> 'w) \<Rightarrow>
   nat \<Rightarrow> real list \<Rightarrow> 'w \<Rightarrow> MemoryBuffer \<Rightarrow> error + MemoryBuffer \<times> 'w" where
  "prefill_spec_loop act_step 0 s w b = Inr (b, w)"
| "prefill_spec_loop act_step (Suc n) s w b =
     (case act_step w s of ((sn, r, done), w1) \<Rightarrow>
        (case store_transition b s ((r + 8) / 8) sn of
           Inl e \<Rightarrow> Inl e
         | Inr b1 \<Rightarrow>
             if pointer b1 = 0 \<or> done then Inr (b1, w1)
             else prefill_spec_loop act_step n s w1 b1))"

definition prefill_spec ::
  "('w \<Rightarrow> real list \<times> 'w) \<Rightarrow> ('w \<Rightarrow> real list \<Rightarrow> (real list \<times> real \<times> bool) \<times> 'w) \<Rightarrow>
   'w \<Rightarrow> MemoryBuffer \<Rightarrow> error + MemoryBuffer \<times> 'w" where
  "prefill_spec env_reset act_step w b =
     (case env_reset w of (s0, w1) \<Rightarrow> prefill_spec_loop act_step EP_MAXLEN s0 w1 b)"

text \<open>
  An environment whose world state is the number of steps taken so far and whose every
  step ends the episode.
\<close>

definition short_reset :: "nat \<Rightarrow> real list \<times> nat" where
  "short_reset w = ([2], w)"

definition short_step :: "nat \<Rightarrow> real list \<Rightarrow> (real list \<times> real \<times> bool) \<times> nat" where
  "short_step w s = (([1], 0, True), Suc w)"

text \<open>
  An environment whose world state is the pair of the number of steps and the number of
  resets so far. A reset gives the state \<open>[resets]\<close>; step number \<open>a\<close> (from 0) gives the
  next state \<open>[10 + a]\<close> and the reward \<open>8 a\<close>, and only step 0 ends an episode.
\<close>

definition tally_reset :: "nat \<times> nat \<Rightarrow> real list \<times> (nat \<times> nat)" where
  "tally_reset w = ([real (snd w)], (fst w, Suc (snd w)))"

definition tally_step :: "nat \<times> nat \<Rightarrow> real list \<Rightarrow> (real list \<times> real \<times> bool) \<times> (nat \<times> nat)" where
  "tally_step w s = (([10 + real (fst w)], 8 * real (fst w), fst w = 0), (Suc (fst w), snd w))"

subsection \<open>DDPGModel: the step counter and the exploration variance\<close>

definition TAU :: real where
  "TAU = 1 / 100"

definition VAR_DECAY :: real where
  "VAR_DECAY = 995 / 1000"

definition WRITE_LOGS_EVERY :: int where
  "WRITE_LOGS_EVERY = 200"

text \<open>
  Of the fields of \<^verbatim>\<open>DDPGModel\<close>, the two that \<^verbatim>\<open>train\<close> updates in Python:
  \<^verbatim>\<open>counter\<close> and \<^verbatim>\<open>variance\<close> (\<^verbatim>\<open>float\<close> in the source, \<open>real\<close> here). The
  constructor sets them to 0 and 3.0; the main program then overwrites the counter with
  the step number of the loaded checkpoint.
\<close>

record DDPGModel =
  counter :: int
  variance :: real

definition DDPGModel_init :: DDPGModel where
  "DDPGModel_init = \<lparr>counter = 0, variance = 3\<rparr>"

text \<open>
  \<^verbatim>\<open>DDPGModel.train\<close>, on these two fields: the counter is incremented, and when the
  new counter is \<open>WRITE_LOGS_EVERY - 1\<close> modulo \<open>WRITE_LOGS_EVERY\<close> the variance is
  multiplied by \<open>VAR_DECAY\<close>. (The optimisation step and the callback touch neither
  field.) \<open>decay_fires m\<close> says that the call of \<^verbatim>\<open>train\<close> on \<open>m\<close> takes that branch,
  and \<open>decay_events n m\<close> counts the calls that take it among \<open>n\<close> successive calls.
\<close>

definition train :: "DDPGModel \<Rightarrow> DDPGModel" where
  "train m =
     (let m1 = m\<lparr>counter := counter m + 1\<rparr> in
      if counter m1 mod WRITE_LOGS_EVERY = WRITE_LOGS_EVERY - 1
      then m1\<lparr>variance := variance m1 * VAR_DECAY\<rparr>
      else m1)"

definition decay_fires :: "DDPGModel \<Rightarrow> bool" where
  "decay_fires m \<longleftrightarrow> (counter m + 1) mod WRITE_LOGS_EVERY = WRITE_LOGS_EVERY - 1"

fun decay_events :: "nat \<Rightarrow> DDPGModel \<Rightarrow> nat" where
  "decay_events 0 m = 0"
| "decay_events (Suc n) m = (if decay_fires m then 1 else 0) + decay_events n (train m)"

subsection \<open>The smoothing of the target parameters\<close>

text \<open>
  Modelled from the spec: the update that \<^verbatim>\<open>tf.train.ExponentialMovingAverage.apply\<close>
  performs, which is code of the TensorFlow library and not of this repository. The
  source fixes its rate (\<^verbatim>\<open>decay=1.0 - TAU\<close>), applies it to all trainable variables of
  the actor and of the critic, and makes the critic's optimisation step depend on it, so
  that it runs once in every call of \<^verbatim>\<open>train\<close>. The specification gives the rule:
  target \<open>\<leftarrow> (1 - \<tau>) \<cdot> target + \<tau> \<cdot> online\<close>, for every learnable parameter on its own.
  Parameters are a list of reals.
\<close>

definition target_update :: "real list \<Rightarrow> real list \<Rightarrow> real list" where
  "target_update target online = map2 (\<lambda>t v. (1 - TAU) * t + TAU * v) target online"

section \<open>The two threads\<close>

text \<open>
  \<^verbatim>\<open>ModelThread.run\<close> (the learner) and \<^verbatim>\<open>BufferThread.run\<close> (the producer) as a
  transition system. Each thread has a program counter, one value for every statement of
  its \<^verbatim>\<open>run\<close> method, with the bodies of \<^verbatim>\<open>sample\<close> and \<^verbatim>\<open>store_transition\<close> inlined
  statement by statement, so that a thread switch can fall between any two of them. A
  thread that raises stays at \<open>Crashed\<close> and, as in the source, does not release the
  lock it holds.

  \<^verbatim>\<open>LOCK\<close> is the field \<open>lock\<close>, the flag of the coordinator is \<open>stop\<close>. The
  environment, the network, its optimiser and the random generator are a world state
  \<open>'w\<close> with four functions on it (\<open>o_draw\<close> gives the raw numbers of one call of
  \<^verbatim>\<open>randint\<close>). The bound of the learner's loop (\<^verbatim>\<open>N_ITERS\<close> in the
  source) and the batch size (\<^verbatim>\<open>BATCH_SIZE\<close>) are the parameters \<open>n\<close> and \<open>num\<close> of
  the step functions.

  Three fields record history and are read by no step: \<open>writes\<close>, the arguments of the
  calls of \<^verbatim>\<open>store_transition\<close> begun so far, \<open>batches\<close>, the results of the calls of
  \<^verbatim>\<open>sample\<close> returned so far, and \<open>episodes\<close>, the number of calls of
  \<^verbatim>\<open>env.reset()\<close> by the producer.
\<close>

definition N_ITERS :: nat where
  "N_ITERS = 500000"

definition BATCH_SIZE :: int where
  "BATCH_SIZE = 128"

datatype ppc =
    P_While | P_Reset | P_For | P_Step | P_Acquire
  | P_WriteS | P_WriteR | P_WriteN | P_Advance | P_Release
  | P_Exit | P_Crashed error

datatype lpc =
    L_For | L_Acquire | L_Draw | L_GatherS | L_GatherR | L_GatherN | L_Release | L_Train
  | L_Stop | L_Exit | L_Crashed error

datatype tid = Producer | Learner

type_synonym batch = "ndarray \<times> ndarray \<times> ndarray"

record 'w oracles =
  o_reset :: "'w \<Rightarrow> real list \<times> 'w"
  o_step :: "real \<Rightarrow> 'w \<Rightarrow> real list \<Rightarrow> (real list \<times> real \<times> bool) \<times> 'w"
  o_draw :: "'w \<Rightarrow> (nat \<Rightarrow> nat) \<times> 'w"
  o_optim :: "'w \<Rightarrow> batch \<Rightarrow> 'w"

record 'w sys =
  buf :: MemoryBuffer
  lock :: bool
  stop :: bool
  mdl :: DDPGModel
  world :: 'w
  ppc :: ppc
  p_it :: nat
  p_s :: "real list"
  p_r :: real
  p_sn :: "real list"
  p_done :: bool
  lpc :: lpc
  l_it :: nat
  l_idx :: "int list"
  l_st :: ndarray
  l_rw :: ndarray
  l_sn :: ndarray
  writes :: "transition list"
  batches :: "batch list"
  episodes :: nat

definition init_sys :: "MemoryBuffer \<Rightarrow> DDPGModel \<Rightarrow> 'w \<Rightarrow> 'w sys" where
  "init_sys b0 m0 w0 =
     \<lparr>buf = b0, lock = False, stop = False, mdl = m0, world = w0,
      ppc = P_While, p_it = 0, p_s = [], p_r = 0, p_sn = [], p_done = False,
      lpc = L_For, l_it = 0, l_idx = [],
      l_st = \<lparr>ncols = 0, rws = []\<rparr>, l_rw = \<lparr>ncols = 0, rws = []\<rparr>,
      l_sn = \<lparr>ncols = 0, rws = []\<rparr>,
      writes = [], batches = [], episodes = 0\<rparr>"

text \<open>
  One step of the producer. \<^verbatim>\<open>LOCK.acquire()\<close> on a held lock does not return: the
  step leaves the state as it is. \<open>P_Step\<close> is the call of \<^verbatim>\<open>env.step\<close> with the
  rescaling of the reward; the rendering before it and the variable \<^verbatim>\<open>gamma\<close>, which
  is never read, are left out. \<open>P_Release\<close> is \<^verbatim>\<open>LOCK.release()\<close> with the two
  statements after it, \<^verbatim>\<open>s = s_next\<close> and \<^verbatim>\<open>if done: break\<close>.
\<close>

definition producer_step :: "'w oracles \<Rightarrow> 'w sys \<Rightarrow> 'w sys" where
  "producer_step orc s =
     (case ppc s of
        P_While \<Rightarrow> if stop s then s\<lparr>ppc := P_Exit\<rparr> else s\<lparr>ppc := P_Reset\<rparr>
      | P_Reset \<Rightarrow>
          (case o_reset orc (world s) of (s0, w1) \<Rightarrow>
             s\<lparr>world := w1, p_s := s0, p_it := 0, ppc := P_For, episodes := episodes s + 1\<rparr>)
      | P_For \<Rightarrow> if p_it s < EP_MAXLEN then s\<lparr>ppc := P_Step\<rparr> else s\<lparr>ppc := P_While\<rparr>
      | P_Step \<Rightarrow>
          (case o_step orc (variance (mdl s)) (world s) (p_s s) of ((sn, r, dn), w1) \<Rightarrow>
             s\<lparr>world := w1, p_sn := sn, p_r := (r + 8) / 8, p_done := dn, ppc := P_Acquire\<rparr>)
      | P_Acquire \<Rightarrow>
          if lock s then s
          else s\<lparr>lock := True, ppc := P_WriteS,
                 writes := writes s @ [(p_s s, p_r s, p_sn s)]\<rparr>
      | P_WriteS \<Rightarrow>
          (case assign_state (buf s) (p_s s) of
             Inl e \<Rightarrow> s\<lparr>ppc := P_Crashed e\<rparr>
           | Inr b \<Rightarrow> s\<lparr>buf := b, ppc := P_WriteR\<rparr>)
      | P_WriteR \<Rightarrow>
          (case assign_reward (buf s) (p_r s) of
             Inl e \<Rightarrow> s\<lparr>ppc := P_Crashed e\<rparr>
           | Inr b \<Rightarrow> s\<lparr>buf := b, ppc := P_WriteN\<rparr>)
      | P_WriteN \<Rightarrow>
          (case assign_s_next (buf s) (p_sn s) of
             Inl e \<Rightarrow> s\<lparr>ppc := P_Crashed e\<rparr>
           | Inr b \<Rightarrow> s\<lparr>buf := b, ppc := P_Advance\<rparr>)
      | P_Advance \<Rightarrow>
          (case advance_pointer (buf s) of
             Inl e \<Rightarrow> s\<lparr>ppc := P_Crashed e\<rparr>
           | Inr b \<Rightarrow> s\<lparr>buf := b, ppc := P_Release\<rparr>)
      | P_Release \<Rightarrow>
          s\<lparr>lock := False, p_s := p_sn s, p_it := p_it s + 1,
            ppc := (if p_done s then P_While else P_For)\<rparr>
      | P_Exit \<Rightarrow> s
      | P_Crashed e \<Rightarrow> s)"

text \<open>
  One step of the learner. \<open>L_Draw\<close> to \<open>L_GatherN\<close> are the body of \<^verbatim>\<open>sample\<close>;
  \<open>L_Train\<close> is \<^verbatim>\<open>model.train\<close> and the increment of the loop variable.
\<close>

definition learner_step :: "'w oracles \<Rightarrow> nat \<Rightarrow> int \<Rightarrow> 'w sys \<Rightarrow> 'w sys" where
  "learner_step orc n num s =
     (case lpc s of
        L_For \<Rightarrow> if l_it s < n then s\<lparr>lpc := L_Acquire\<rparr> else s\<lparr>lpc := L_Stop\<rparr>
      | L_Acquire \<Rightarrow> if lock s then s else s\<lparr>lock := True, lpc := L_Draw\<rparr>
      | L_Draw \<Rightarrow>
          (case o_draw orc (world s) of (raw, w1) \<Rightarrow>
             (case randint 0 (capacity (buf s)) num raw of
                Inl e \<Rightarrow> s\<lparr>world := w1, lpc := L_Crashed e\<rparr>
              | Inr indices \<Rightarrow> s\<lparr>world := w1, l_idx := indices, lpc := L_GatherS\<rparr>))
      | L_GatherS \<Rightarrow>
          (case take_rows (state (buf s)) (l_idx s) of
             Inl e \<Rightarrow> s\<lparr>lpc := L_Crashed e\<rparr>
           | Inr a \<Rightarrow> s\<lparr>l_st := a, lpc := L_GatherR\<rparr>)
      | L_GatherR \<Rightarrow>
          (case take_rows (reward (buf s)) (l_idx s) of
             Inl e \<Rightarrow> s\<lparr>lpc := L_Crashed e\<rparr>
           | Inr a \<Rightarrow> s\<lparr>l_rw := a, lpc := L_GatherN\<rparr>)
      | L_GatherN \<Rightarrow>
          (case take_rows (s_next (buf s)) (l_idx s) of
             Inl e \<Rightarrow> s\<lparr>lpc := L_Crashed e\<rparr>
           | Inr a \<Rightarrow>
               s\<lparr>l_sn := a, lpc := L_Release,
                 batches := batches s @ [(l_st s, l_rw s, a)]\<rparr>)
      | L_Release \<Rightarrow> s\<lparr>lock := False, lpc := L_Train\<rparr>
      | L_Train \<Rightarrow>
          s\<lparr>world := o_optim orc (world s) (l_st s, l_rw s, l_sn s),
            mdl := train (mdl s), l_it := l_it s + 1, lpc := L_For\<rparr>
      | L_Stop \<Rightarrow> s\<lparr>stop := True, lpc := L_Exit\<rparr>
      | L_Exit \<Rightarrow> s
      | L_Crashed e \<Rightarrow> s)"

text \<open>
  An interleaving is the list of the threads in the order in which they take their
  steps.
\<close>

definition thread_step :: "'w oracles \<Rightarrow> nat \<Rightarrow> int \<Rightarrow> tid \<Rightarrow> 'w sys \<Rightarrow> 'w sys" where
  "thread_step orc n num t s =
     (case t of Producer \<Rightarrow> producer_step orc s | Learner \<Rightarrow> learner_step orc n num s)"

fun run :: "'w oracles \<Rightarrow> nat \<Rightarrow> int \<Rightarrow> tid list \<Rightarrow> 'w sys \<Rightarrow> 'w sys" where
  "run orc n num [] s = s"
| "run orc n num (t # ts) s = run orc n num ts (thread_step orc n num t s)"

text \<open>Where a thread holds the lock; a thread can only have crashed there.\<close>

fun p_in_cs :: "ppc \<Rightarrow> bool" where
  "p_in_cs P_WriteS = True"
| "p_in_cs P_WriteR = True"
| "p_in_cs P_WriteN = True"
| "p_in_cs P_Advance = True"
| "p_in_cs P_Release = True"
| "p_in_cs (P_Crashed e) = True"
| "p_in_cs _ = False"

fun l_in_cs :: "lpc \<Rightarrow> bool" where
  "l_in_cs L_Draw = True"
| "l_in_cs L_GatherS = True"
| "l_in_cs L_GatherR = True"
| "l_in_cs L_GatherN = True"
| "l_in_cs L_Release = True"
| "l_in_cs (L_Crashed e) = True"
| "l_in_cs _ = False"

text \<open>
  Rows. \<open>row_at b i\<close> is row \<open>i\<close> of the store, across the three arrays.
  \<open>written_row d x\<close> is the row that a complete call \<^verbatim>\<open>store_transition(s, r, s_next)\<close>
  writes into a store of dimension \<open>d\<close>. A row comes from one write when it is a row
  that the store had when the threads were started, or the row written by one of the
  calls recorded in \<open>writes\<close>. \<open>batch_rows\<close> are the rows of a sampled batch, across
  its three arrays.
\<close>

type_synonym row = "real list \<times> real list \<times> real list"

definition row_at :: "MemoryBuffer \<Rightarrow> nat \<Rightarrow> row" where
  "row_at b i = (rws (state b) ! i, rws (reward b) ! i, rws (s_next b) ! i)"

definition as_row :: "nat \<Rightarrow> real list \<Rightarrow> real list" where
  "as_row d v = (if length v = d then v else replicate d (hd v))"

definition written_row :: "nat \<Rightarrow> transition \<Rightarrow> row" where
  "written_row d x = (as_row d (fst x), [fst (snd x)], as_row d (snd (snd x)))"

definition initial_rows :: "MemoryBuffer \<Rightarrow> row list" where
  "initial_rows b = map (row_at b) [0..<nat (capacity b)]"

definition from_one_write :: "nat \<Rightarrow> row list \<Rightarrow> transition list \<Rightarrow> row \<Rightarrow> bool" where
  "from_one_write d r0 ws t \<longleftrightarrow> t \<in> set r0 \<or> t \<in> written_row d ` set ws"

definition batch_rows :: "batch \<Rightarrow> row list" where
  "batch_rows bt = zip (rws (fst bt)) (zip (rws (fst (snd bt))) (rws (snd (snd bt))))"

definition batch_ok :: "nat \<Rightarrow> row list \<Rightarrow> transition list \<Rightarrow> batch \<Rightarrow> bool" where
  "batch_ok d r0 ws bt \<longleftrightarrow>
     length (rws (fst (snd bt))) = length (rws (fst bt)) \<and>
     length (rws (snd (snd bt))) = length (rws (fst bt)) \<and>
     list_all (from_one_write d r0 ws) (batch_rows bt)"



subsection \<open>Invariants of the two threads\<close>

text \<open>Mutual exclusion: a thread inside its critical section holds the lock alone.\<close>

definition mutex :: "'w sys \<Rightarrow> bool" where
  "mutex s \<longleftrightarrow>
     (p_in_cs (ppc s) \<longrightarrow> lock s \<and> \<not> l_in_cs (lpc s)) \<and>
     (l_in_cs (lpc s) \<longrightarrow> lock s \<and> \<not> p_in_cs (ppc s)) \<and>
     (lock s \<longrightarrow> p_in_cs (ppc s) \<or> l_in_cs (lpc s))"

text \<open>The store keeps the shape it had when the threads were started.\<close>

definition shape :: "nat \<Rightarrow> int \<Rightarrow> 'w sys \<Rightarrow> bool" where
  "shape d c s \<longleftrightarrow> buffer_ok (buf s) \<and> capacity (buf s) = c \<and> ncols (state (buf s)) = d"

text \<open>
  The rows of the store. Outside a call of \<^verbatim>\<open>store_transition\<close> every row comes from
  one write. Inside, the row under the pointer is being overwritten, array by array, with
  the call's arguments, and every other row comes from one write.
\<close>

definition all_rows_ok :: "nat \<Rightarrow> row list \<Rightarrow> 'w sys \<Rightarrow> bool" where
  "all_rows_ok d r0 s \<longleftrightarrow>
     (\<forall>i < nat (capacity (buf s)). from_one_write d r0 (writes s) (row_at (buf s) i))"

definition other_rows_ok :: "nat \<Rightarrow> row list \<Rightarrow> 'w sys \<Rightarrow> bool" where
  "other_rows_ok d r0 s \<longleftrightarrow>
     (\<forall>i < nat (capacity (buf s)). i \<noteq> nat (pointer (buf s)) \<longrightarrow>
        from_one_write d r0 (writes s) (row_at (buf s) i))"

definition rows_inv :: "nat \<Rightarrow> row list \<Rightarrow> 'w sys \<Rightarrow> bool" where
  "rows_inv d r0 s \<longleftrightarrow>
     (case ppc s of
        P_WriteS \<Rightarrow> all_rows_ok d r0 s \<and> (p_s s, p_r s, p_sn s) \<in> set (writes s)
      | P_WriteR \<Rightarrow>
          other_rows_ok d r0 s \<and> (p_s s, p_r s, p_sn s) \<in> set (writes s) \<and>
          rws (state (buf s)) ! nat (pointer (buf s)) = as_row d (p_s s)
      | P_WriteN \<Rightarrow>
          other_rows_ok d r0 s \<and> (p_s s, p_r s, p_sn s) \<in> set (writes s) \<and>
          rws (state (buf s)) ! nat (pointer (buf s)) = as_row d (p_s s) \<and>
          rws (reward (buf s)) ! nat (pointer (buf s)) = [p_r s]
      | P_Crashed e \<Rightarrow> True
      | _ \<Rightarrow> all_rows_ok d r0 s)"

text \<open>
  The learner. Inside \<^verbatim>\<open>sample\<close>, what has been gathered so far are the rows of the
  store, as it is now, at the drawn indices. Every batch that \<^verbatim>\<open>sample\<close> has returned
  consists of rows that come from one write each.
\<close>

definition gathered :: "ndarray \<Rightarrow> int list \<Rightarrow> ndarray \<Rightarrow> bool" where
  "gathered a idx g \<longleftrightarrow>
     (\<forall>i \<in> set idx. - int (length (rws a)) \<le> i \<and> i < int (length (rws a))) \<and>
     rws g = map (\<lambda>i. rws a ! nat (if i < 0 then int (length (rws a)) + i else i)) idx"

definition gather_inv :: "nat \<Rightarrow> row list \<Rightarrow> 'w sys \<Rightarrow> bool" where
  "gather_inv d r0 s \<longleftrightarrow>
     (case lpc s of
        L_GatherR \<Rightarrow> gathered (state (buf s)) (l_idx s) (l_st s)
      | L_GatherN \<Rightarrow>
          gathered (state (buf s)) (l_idx s) (l_st s) \<and>
          gathered (reward (buf s)) (l_idx s) (l_rw s)
      | _ \<Rightarrow> True) \<and>
     list_all (batch_ok d r0 (writes s)) (batches s)"

definition sys_inv :: "nat \<Rightarrow> int \<Rightarrow> row list \<Rightarrow> 'w sys \<Rightarrow> bool" where
  "sys_inv d c r0 s \<longleftrightarrow> shape d c s \<and> mutex s \<and> rows_inv d r0 s \<and> gather_inv d r0 s"




text \<open>
  A small world for concrete runs: the environment \<open>short_reset\<close>, \<open>short_step\<close> above
  (whatever the variance), a random generator that always draws row 0, and an optimiser
  that leaves the world alone.
\<close>

definition short_draw :: "nat \<Rightarrow> (nat \<Rightarrow> nat) \<times> nat" where
  "short_draw w = (\<lambda>k. 0, w)"

definition short_optim :: "nat \<Rightarrow> batch \<Rightarrow> nat" where
  "short_optim w bt = w"

definition short_step_v :: "real \<Rightarrow> nat \<Rightarrow> real list \<Rightarrow> (real list \<times> real \<times> bool) \<times> nat" where
  "short_step_v v = short_step"

definition short_world :: "nat oracles" where
  "short_world =
     \<lparr>o_reset = short_reset, o_step = short_step_v, o_draw = short_draw,
      o_optim = short_optim\<rparr>"




section \<open>Properties of the store\<close>

lemma bind_err_Inr_iff:
  "bind_err m f = Inr y \<longleftrightarrow> (\<exists>x. m = Inr x \<and> f x = Inr y)"
  by (cases m) (simp_all add: bind_err_def)

lemma set_row_Inr:
  assumes "0 \<le> i" "i < int (length (rws a))" "length v = ncols a"
  shows "set_row a i v = Inr (a\<lparr>rws := (rws a)[nat i := v]\<rparr>)"
  using assms by (simp add: set_row_def np_index_def broadcast_to_def bind_err_def)

lemma store_transition_Inr:
  assumes "buffer_ok b" "length s = ncols (state b)" "length sn = ncols (state b)"
  shows "store_transition b s r sn =
           Inr (b\<lparr>state := (state b)\<lparr>rws := (rws (state b))[nat (pointer b) := s]\<rparr>,
                  reward := (reward b)\<lparr>rws := (rws (reward b))[nat (pointer b) := [r]]\<rparr>,
                  s_next := (s_next b)\<lparr>rws := (rws (s_next b))[nat (pointer b) := sn]\<rparr>,
                  pointer := (pointer b + 1) mod capacity b\<rparr>)"
  using assms
  by (simp add: store_transition_def assign_state_def assign_reward_def assign_s_next_def
      advance_pointer_def set_row_Inr buffer_ok_def bind_err_def)

lemma MemoryBuffer_init_Inr:
  assumes "0 \<le> cap" "0 \<le> d"
  shows "MemoryBuffer_init cap d =
           Inr \<lparr>capacity = cap,
                state = \<lparr>ncols = nat d, rws = replicate (nat cap) (replicate (nat d) 0)\<rparr>,
                reward = \<lparr>ncols = 1, rws = replicate (nat cap) [0]\<rparr>,
                s_next = \<lparr>ncols = nat d, rws = replicate (nat cap) (replicate (nat d) 0)\<rparr>,
                pointer = 0\<rparr>"
  using assms by (simp add: MemoryBuffer_init_def np_zeros_def bind_err_def)

lemma store_transition_ok:
  assumes "buffer_ok b" "store_transition b s r sn = Inr b'"
  shows "buffer_ok b'" "capacity b' = capacity b"
    "pointer b' = (pointer b + 1) mod capacity b"
    "ncols (state b') = ncols (state b)"
    "\<exists>row. broadcast_to (ncols (state b)) s = Inr row \<and>
       rws (state b') = (rws (state b))[nat (pointer b) := row]"
    "rws (reward b') = (rws (reward b))[nat (pointer b) := [r]]"
    "\<exists>row. broadcast_to (ncols (state b)) sn = Inr row \<and>
       rws (s_next b') = (rws (s_next b))[nat (pointer b) := row]"
proof -
  from assms(2) obtain b1 b2 b3 where
    b1: "assign_state b s = Inr b1" and b2: "assign_reward b1 r = Inr b2" and
    b3: "assign_s_next b2 sn = Inr b3" and b4: "advance_pointer b3 = Inr b'"
    unfolding store_transition_def bind_err_Inr_iff by blast
  from assms(1) have p: "0 \<le> pointer b" "pointer b < int (length (rws (state b)))"
    "length (rws (reward b)) = length (rws (state b))"
    "length (rws (s_next b)) = length (rws (state b))"
    "ncols (reward b) = 1" "ncols (s_next b) = ncols (state b)" "0 < capacity b"
    by (auto simp: buffer_ok_def)
  from b1 p obtain row1 where r1: "broadcast_to (ncols (state b)) s = Inr row1"
    and e1: "b1 = b\<lparr>state := (state b)\<lparr>rws := (rws (state b))[nat (pointer b) := row1]\<rparr>\<rparr>"
    by (auto simp: assign_state_def set_row_def np_index_def bind_err_Inr_iff split: if_splits)
  from b2 p e1 have e2: "b2 = b1\<lparr>reward := (reward b)\<lparr>rws := (rws (reward b))[nat (pointer b) := [r]]\<rparr>\<rparr>"
    by (auto simp: assign_reward_def set_row_def np_index_def broadcast_to_def bind_err_Inr_iff
        split: if_splits)
  from b3 p e1 e2 obtain row3 where r3: "broadcast_to (ncols (state b)) sn = Inr row3"
    and e3: "b3 = b2\<lparr>s_next := (s_next b)\<lparr>rws := (rws (s_next b))[nat (pointer b) := row3]\<rparr>\<rparr>"
    by (auto simp: assign_s_next_def set_row_def np_index_def bind_err_Inr_iff split: if_splits)
  from b4 have e4: "b' = b3\<lparr>pointer := (pointer b3 + 1) mod capacity b3\<rparr>"
    by (auto simp: advance_pointer_def split: if_splits)
  show "capacity b' = capacity b" "pointer b' = (pointer b + 1) mod capacity b"
    "ncols (state b') = ncols (state b)"
    "rws (reward b') = (rws (reward b))[nat (pointer b) := [r]]"
    by (simp_all add: e1 e2 e3 e4)
  show "buffer_ok b'"
    using assms(1) by (simp add: e1 e2 e3 e4 buffer_ok_def)
  show "\<exists>row. broadcast_to (ncols (state b)) s = Inr row \<and>
       rws (state b') = (rws (state b))[nat (pointer b) := row]"
    using r1 by (simp add: e1 e2 e3 e4)
  show "\<exists>row. broadcast_to (ncols (state b)) sn = Inr row \<and>
       rws (s_next b') = (rws (s_next b))[nat (pointer b) := row]"
    using r3 by (simp add: e1 e2 e3 e4)
qed

lemma MemoryBuffer_init_ok:
  assumes "0 < C" "0 \<le> d" "MemoryBuffer_init C d = Inr b"
  shows "buffer_ok b" "capacity b = C" "pointer b = 0" "ncols (state b) = nat d"
  using assms by (auto simp: MemoryBuffer_init_Inr buffer_ok_def)

text \<open>
  C9 (pointer invariant). For a capacity \<open>C > 0\<close> the constructor returns a store with
  pointer \<open>0\<close>, which is in \<open>[0, C)\<close>. Every call of \<^verbatim>\<open>store_transition\<close> that returns, on
  a store with the pointer in \<open>[0, C)\<close>, writes the three rows at the index the pointer
  had before the call and nowhere else, leaves the capacity alone, and sets the pointer to
  \<open>(pointer + 1) mod C\<close>, again in \<open>[0, C)\<close>. With vectors of the store's dimension the
  call does return.
\<close>

theorem pointer_invariant:
  "(0 < C \<and> 0 \<le> d \<longrightarrow>
      (\<exists>b0. MemoryBuffer_init C d = Inr b0 \<and> buffer_ok b0 \<and> capacity b0 = C \<and>
            pointer b0 = 0 \<and> 0 \<le> pointer b0 \<and> pointer b0 < C)) \<and>
   (buffer_ok b \<and> store_transition b s r sn = Inr b' \<longrightarrow>
      buffer_ok b' \<and> capacity b' = capacity b \<and>
      pointer b' = (pointer b + 1) mod capacity b \<and>
      0 \<le> pointer b' \<and> pointer b' < capacity b' \<and>
      (\<exists>row. broadcast_to (ncols (state b)) s = Inr row \<and>
         rws (state b') = (rws (state b))[nat (pointer b) := row]) \<and>
      rws (reward b') = (rws (reward b))[nat (pointer b) := [r]] \<and>
      (\<exists>row. broadcast_to (ncols (state b)) sn = Inr row \<and>
         rws (s_next b') = (rws (s_next b))[nat (pointer b) := row])) \<and>
   (buffer_ok b \<and> length s = ncols (state b) \<and> length sn = ncols (state b) \<longrightarrow>
      (\<exists>b'. store_transition b s r sn = Inr b' \<and>
         rws (state b') = (rws (state b))[nat (pointer b) := s] \<and>
         rws (s_next b') = (rws (s_next b))[nat (pointer b) := sn]))"
proof (intro conjI impI)
  assume "0 < C \<and> 0 \<le> d"
  then show "\<exists>b0. MemoryBuffer_init C d = Inr b0 \<and> buffer_ok b0 \<and> capacity b0 = C \<and>
            pointer b0 = 0 \<and> 0 \<le> pointer b0 \<and> pointer b0 < C"
    by (simp add: MemoryBuffer_init_Inr buffer_ok_def)
next
  assume a: "buffer_ok b \<and> store_transition b s r sn = Inr b'"
  then have ok: "buffer_ok b'" and cap: "capacity b' = capacity b"
    by (blast intro: store_transition_ok)+
  show "buffer_ok b'" by (rule ok)
  show "capacity b' = capacity b" by (rule cap)
  show "pointer b' = (pointer b + 1) mod capacity b"
    using a by (blast intro: store_transition_ok)
  show "0 \<le> pointer b'" "pointer b' < capacity b'"
    using ok by (simp_all add: buffer_ok_def)
  show "\<exists>row. broadcast_to (ncols (state b)) s = Inr row \<and>
         rws (state b') = (rws (state b))[nat (pointer b) := row]"
    using a by (blast intro: store_transition_ok)
  show "rws (reward b') = (rws (reward b))[nat (pointer b) := [r]]"
    using a by (blast intro: store_transition_ok)
  show "\<exists>row. broadcast_to (ncols (state b)) sn = Inr row \<and>
         rws (s_next b') = (rws (s_next b))[nat (pointer b) := row]"
    using a by (blast intro: store_transition_ok)
next
  assume "buffer_ok b \<and> length s = ncols (state b) \<and> length sn = ncols (state b)"
  then show "\<exists>b'. store_transition b s r sn = Inr b' \<and>
         rws (state b') = (rws (state b))[nat (pointer b) := s] \<and>
         rws (s_next b') = (rws (s_next b))[nat (pointer b) := sn]"
    by (simp add: store_transition_Inr)
qed

theorem pointer_invariant_witness:
  "(0::int) < 2 \<and> (0::int) \<le> 1 \<and>
   buffer_ok \<lparr>capacity = 2, state = \<lparr>ncols = 1, rws = [[0], [0]]\<rparr>,
              reward = \<lparr>ncols = 1, rws = [[0], [0]]\<rparr>,
              s_next = \<lparr>ncols = 1, rws = [[0], [0]]\<rparr>, pointer = 1\<rparr> \<and>
   length [7::real] = ncols \<lparr>ncols = 1, rws = [[0], [0]]\<rparr> \<and>
   (\<exists>b'. store_transition
           \<lparr>capacity = 2, state = \<lparr>ncols = 1, rws = [[0], [0]]\<rparr>,
              reward = \<lparr>ncols = 1, rws = [[0], [0]]\<rparr>,
              s_next = \<lparr>ncols = 1, rws = [[0], [0]]\<rparr>, pointer = 1\<rparr> [7] 3 [8] = Inr b' \<and>
         pointer b' = 0 \<and> rws (state b') = [[0], [7]] \<and> rws (reward b') = [[0], [3]] \<and>
         rws (s_next b') = [[0], [8]]) \<and>
   (\<exists>b0. MemoryBuffer_init 2 1 = Inr b0 \<and> pointer b0 = 0)"
proof -
  let ?b = "\<lparr>capacity = 2, state = \<lparr>ncols = 1, rws = [[0], [0]]\<rparr>,
              reward = \<lparr>ncols = 1, rws = [[0], [0]]\<rparr>,
              s_next = \<lparr>ncols = 1, rws = [[0], [0]]\<rparr>, pointer = 1\<rparr>"
  have ok: "buffer_ok ?b" by (simp add: buffer_ok_def)
  have dims: "length [7::real] = ncols (state ?b)" "length [8::real] = ncols (state ?b)"
    by simp_all
  have init: "(0::int) < 2 \<and> (0::int) \<le> 1" by simp
  from pointer_invariant [of 2 1 ?b "[7]" 3 "[8]"] ok dims
  obtain b' where st: "store_transition ?b [7] 3 [8] = Inr b'"
    "rws (state b') = (rws (state ?b))[nat (pointer ?b) := [7]]"
    "rws (s_next b') = (rws (s_next ?b))[nat (pointer ?b) := [8]]"
    by blast
  from pointer_invariant [of 2 1 ?b "[7]" 3 "[8]" b'] ok st(1)
  have "pointer b' = (pointer ?b + 1) mod capacity ?b"
    "rws (reward b') = (rws (reward ?b))[nat (pointer ?b) := [3]]"
    by blast+
  with st have "\<exists>b'. store_transition ?b [7] 3 [8] = Inr b' \<and>
       pointer b' = 0 \<and> rws (state b') = [[0], [7]] \<and> rws (reward b') = [[0], [3]] \<and>
       rws (s_next b') = [[0], [8]]"
    by simp
  moreover from pointer_invariant [of 2 1] init
  have "\<exists>b0. MemoryBuffer_init 2 1 = Inr b0 \<and> pointer b0 = 0" by blast
  ultimately show ?thesis using ok by simp
qed

lemma store_all_snoc:
  "store_all b (ts @ [t]) =
     bind_err (store_all b ts) (\<lambda>b'. store_transition b' (fst t) (fst (snd t)) (snd (snd t)))"
  by (induction ts arbitrary: b) (simp_all add: bind_err_def split: sum.splits)

lemma writers_Suc:
  "writers C (Suc N) i = writers C N i @ (if N mod C = i then [N] else [])"
  by (simp add: writers_def)

lemma most_recent_writer_Suc:
  "most_recent_writer C (Suc N) i = (if N mod C = i then Some N else most_recent_writer C N i)"
  by (simp add: most_recent_writer_def writers_Suc)

lemma most_recent_writer_0: "most_recent_writer C 0 i = None"
  by (simp add: most_recent_writer_def writers_def)

lemma most_recent_writer_Some:
  "most_recent_writer C N i = Some j \<Longrightarrow>
     j < N \<and> j mod C = i \<and> (\<forall>j' < N. j' mod C = i \<longrightarrow> j' \<le> j)"
proof (induction N arbitrary: j)
  case 0
  then show ?case by (simp add: most_recent_writer_0)
next
  case (Suc N)
  show ?case
  proof (cases "N mod C = i")
    case True
    with Suc.prems have "j = N" by (simp add: most_recent_writer_Suc)
    with True show ?thesis by auto
  next
    case False
    with Suc.prems have "most_recent_writer C N i = Some j" by (simp add: most_recent_writer_Suc)
    from Suc.IH[OF this] False show ?thesis by (auto simp: less_Suc_eq)
  qed
qed

lemma most_recent_writer_None:
  "most_recent_writer C N i = None \<longleftrightarrow> (\<forall>j < N. j mod C \<noteq> i)"
  by (auto simp: most_recent_writer_def writers_def filter_empty_conv)

lemma most_recent_writer_full:
  assumes "i < C" "C \<le> N"
  shows "\<exists>j. most_recent_writer C N i = Some j"
proof -
  from assms have "i < N" "i mod C = i" by simp_all
  then have "most_recent_writer C N i \<noteq> None"
    unfolding most_recent_writer_None by blast
  then show ?thesis by auto
qed

lemma store_all_fresh:
  assumes C: "0 < C" and d: "0 \<le> d"
    and init: "MemoryBuffer_init C d = Inr b0"
  shows "(\<forall>t \<in> set ts. length (fst t) = nat d \<and> length (snd (snd t)) = nat d) \<Longrightarrow>
     \<exists>b. store_all b0 ts = Inr b \<and> buffer_ok b \<and> capacity b = C \<and>
         ncols (state b) = nat d \<and> pointer b = int (length ts) mod C \<and>
         (\<forall>i < nat C.
            rws (state b) ! i =
              (case most_recent_writer (nat C) (length ts) i of
                 None \<Rightarrow> replicate (nat d) 0 | Some j \<Rightarrow> fst (ts ! j)) \<and>
            rws (reward b) ! i =
              (case most_recent_writer (nat C) (length ts) i of
                 None \<Rightarrow> [0] | Some j \<Rightarrow> [fst (snd (ts ! j))]) \<and>
            rws (s_next b) ! i =
              (case most_recent_writer (nat C) (length ts) i of
                 None \<Rightarrow> replicate (nat d) 0 | Some j \<Rightarrow> snd (snd (ts ! j))))"
proof (induction ts rule: rev_induct)
  case Nil
  from C d init show ?case
    by (auto simp: MemoryBuffer_init_Inr buffer_ok_def most_recent_writer_0)
next
  case (snoc t ts)
  then obtain b where b: "store_all b0 ts = Inr b" and ok: "buffer_ok b"
    and cap: "capacity b = C" and nc: "ncols (state b) = nat d"
    and p: "pointer b = int (length ts) mod C"
    and rows: "\<And>i. i < nat C \<Longrightarrow>
            rws (state b) ! i =
              (case most_recent_writer (nat C) (length ts) i of
                 None \<Rightarrow> replicate (nat d) 0 | Some j \<Rightarrow> fst (ts ! j)) \<and>
            rws (reward b) ! i =
              (case most_recent_writer (nat C) (length ts) i of
                 None \<Rightarrow> [0] | Some j \<Rightarrow> [fst (snd (ts ! j))]) \<and>
            rws (s_next b) ! i =
              (case most_recent_writer (nat C) (length ts) i of
                 None \<Rightarrow> replicate (nat d) 0 | Some j \<Rightarrow> snd (snd (ts ! j)))"
    by auto
  from snoc.prems have dim: "length (fst t) = ncols (state b)" "length (snd (snd t)) = ncols (state b)"
    by (simp_all add: nc)
  define b' where "b' = b\<lparr>state := (state b)\<lparr>rws := (rws (state b))[nat (pointer b) := fst t]\<rparr>,
                  reward := (reward b)\<lparr>rws := (rws (reward b))[nat (pointer b) := [fst (snd t)]]\<rparr>,
                  s_next := (s_next b)\<lparr>rws := (rws (s_next b))[nat (pointer b) := snd (snd t)]\<rparr>,
                  pointer := (pointer b + 1) mod capacity b\<rparr>"
  have st: "store_transition b (fst t) (fst (snd t)) (snd (snd t)) = Inr b'"
    unfolding b'_def by (rule store_transition_Inr[OF ok dim])
  have all: "store_all b0 (ts @ [t]) = Inr b'"
    by (simp add: store_all_snoc b st bind_err_def)
  have ok': "buffer_ok b'" and cap': "capacity b' = C" and nc': "ncols (state b') = nat d"
    using store_transition_ok[OF ok st] cap nc by simp_all
  have p': "pointer b' = int (length (ts @ [t])) mod C"
    by (simp add: b'_def p cap mod_add_left_eq mod_add_right_eq add.commute)
  have np: "nat (pointer b) = length ts mod nat C"
    using C by (simp add: p nat_mod_distrib)
  have len: "length (rws (state b)) = nat C" "length (rws (reward b)) = nat C"
    "length (rws (s_next b)) = nat C"
    using ok cap by (simp_all add: buffer_ok_def)
  have lt: "\<And>i j. most_recent_writer (nat C) (length ts) i = Some j \<Longrightarrow> j < length ts"
    by (blast dest: most_recent_writer_Some)
  have "rws (state b') ! i =
              (case most_recent_writer (nat C) (length (ts @ [t])) i of
                 None \<Rightarrow> replicate (nat d) 0 | Some j \<Rightarrow> fst ((ts @ [t]) ! j)) \<and>
            rws (reward b') ! i =
              (case most_recent_writer (nat C) (length (ts @ [t])) i of
                 None \<Rightarrow> [0] | Some j \<Rightarrow> [fst (snd ((ts @ [t]) ! j))]) \<and>
            rws (s_next b') ! i =
              (case most_recent_writer (nat C) (length (ts @ [t])) i of
                 None \<Rightarrow> replicate (nat d) 0 | Some j \<Rightarrow> snd (snd ((ts @ [t]) ! j)))"
    if i: "i < nat C" for i
  proof (cases "length ts mod nat C = i")
    case True
    with i show ?thesis
      by (simp add: b'_def np len most_recent_writer_Suc)
  next
    case False
    with i rows[OF i] show ?thesis
      by (auto simp: b'_def np len most_recent_writer_Suc nth_append dest: lt split: option.splits)
  qed
  with all ok' cap' nc' p' show ?case by blast
qed

lemma store_all_rows:
  assumes C: "0 < C" and d: "0 \<le> d"
    and init: "MemoryBuffer_init C d = Inr b0"
  shows "store_all b0 ts = Inr b \<Longrightarrow>
     buffer_ok b \<and> capacity b = C \<and> ncols (state b) = nat d \<and>
     pointer b = int (length ts) mod C \<and>
     (\<forall>i < nat C.
        rws (state b) ! i =
          (case most_recent_writer (nat C) (length ts) i of
             None \<Rightarrow> replicate (nat d) 0 | Some j \<Rightarrow> as_row (nat d) (fst (ts ! j))) \<and>
        rws (reward b) ! i =
          (case most_recent_writer (nat C) (length ts) i of
             None \<Rightarrow> [0] | Some j \<Rightarrow> [fst (snd (ts ! j))]) \<and>
        rws (s_next b) ! i =
          (case most_recent_writer (nat C) (length ts) i of
             None \<Rightarrow> replicate (nat d) 0 | Some j \<Rightarrow> as_row (nat d) (snd (snd (ts ! j)))))"
proof (induction ts arbitrary: b rule: rev_induct)
  case Nil
  with C d init show ?case
    by (auto simp: MemoryBuffer_init_Inr buffer_ok_def most_recent_writer_0)
next
  case (snoc t ts)
  from snoc.prems obtain b1 where b1: "store_all b0 ts = Inr b1"
    and st: "store_transition b1 (fst t) (fst (snd t)) (snd (snd t)) = Inr b"
    by (auto simp: store_all_snoc bind_err_Inr_iff)
  from snoc.IH[OF b1] have ok: "buffer_ok b1" and cap: "capacity b1 = C"
    and nc: "ncols (state b1) = nat d" and p: "pointer b1 = int (length ts) mod C"
    and rows: "\<And>i. i < nat C \<Longrightarrow>
        rws (state b1) ! i =
          (case most_recent_writer (nat C) (length ts) i of
             None \<Rightarrow> replicate (nat d) 0 | Some j \<Rightarrow> as_row (nat d) (fst (ts ! j))) \<and>
        rws (reward b1) ! i =
          (case most_recent_writer (nat C) (length ts) i of
             None \<Rightarrow> [0] | Some j \<Rightarrow> [fst (snd (ts ! j))]) \<and>
        rws (s_next b1) ! i =
          (case most_recent_writer (nat C) (length ts) i of
             None \<Rightarrow> replicate (nat d) 0 | Some j \<Rightarrow> as_row (nat d) (snd (snd (ts ! j))))"
    by blast+
  note r = store_transition_ok[OF ok st]
  from r(5) nc have rs: "rws (state b) = (rws (state b1))[nat (pointer b1) := as_row (nat d) (fst t)]"
    by (auto simp: broadcast_to_def as_row_def split: if_splits)
  from r(7) nc have rn: "rws (s_next b) = (rws (s_next b1))[nat (pointer b1) := as_row (nat d) (snd (snd t))]"
    by (auto simp: broadcast_to_def as_row_def split: if_splits)
  note rr = r(6)
  have p': "pointer b = int (length (ts @ [t])) mod C"
    by (simp add: r(3) p cap mod_add_left_eq mod_add_right_eq add.commute)
  have np: "nat (pointer b1) = length ts mod nat C"
    using C by (simp add: p nat_mod_distrib)
  have len: "length (rws (state b1)) = nat C" "length (rws (reward b1)) = nat C"
    "length (rws (s_next b1)) = nat C"
    using ok cap by (simp_all add: buffer_ok_def)
  have lt: "\<And>i j. most_recent_writer (nat C) (length ts) i = Some j \<Longrightarrow> j < length ts"
    by (blast dest: most_recent_writer_Some)
  have "rws (state b) ! i =
          (case most_recent_writer (nat C) (length (ts @ [t])) i of
             None \<Rightarrow> replicate (nat d) 0 | Some j \<Rightarrow> as_row (nat d) (fst ((ts @ [t]) ! j))) \<and>
        rws (reward b) ! i =
          (case most_recent_writer (nat C) (length (ts @ [t])) i of
             None \<Rightarrow> [0] | Some j \<Rightarrow> [fst (snd ((ts @ [t]) ! j))]) \<and>
        rws (s_next b) ! i =
          (case most_recent_writer (nat C) (length (ts @ [t])) i of
             None \<Rightarrow> replicate (nat d) 0 | Some j \<Rightarrow> as_row (nat d) (snd (snd ((ts @ [t]) ! j))))"
    if i: "i < nat C" for i
  proof (cases "length ts mod nat C = i")
    case True
    with i show ?thesis
      by (simp add: rs rr rn np len most_recent_writer_Suc)
  next
    case False
    with i rows[OF i] show ?thesis
      by (auto simp: rs rr rn np len most_recent_writer_Suc nth_append dest: lt split: option.splits)
  qed
  with r(1) r(2) r(4) cap nc p' show ?case by simp
qed

text \<open>
  C1 (circular overwrite). On a fresh store of capacity \<open>C > 0\<close> (pointer \<open>0\<close>), after
  \<open>C + k\<close> calls of \<^verbatim>\<open>store_transition\<close> with vectors of the store's dimension, all
  calls return, the pointer is \<open>k mod C\<close>, and every row \<open>i < C\<close> holds the transition
  of its most recent writer: the greatest call number \<open>j < C + k\<close> with \<open>j mod C = i\<close>.
  The same holds of any \<open>C + k\<close> calls that all return, with the vectors as numpy
  broadcasts them to the row (\<open>as_row\<close>).
  With capacity 4 and dimension 1, storing the states \<open>[1], [2], [3], [4], [5]\<close> leaves
  the state rows \<open>[5], [2], [3], [4]\<close> and the pointer 1.
\<close>

theorem circular_overwrite:
  "(0 < C \<and> 0 \<le> d \<and>
    (\<forall>t \<in> set ts. length (fst t) = nat d \<and> length (snd (snd t)) = nat d) \<and>
    length ts = nat C + k \<longrightarrow>
    (\<exists>b0 b. MemoryBuffer_init C d = Inr b0 \<and> pointer b0 = 0 \<and>
       store_all b0 ts = Inr b \<and> pointer b = int (k mod nat C) \<and>
       length (rws (state b)) = nat C \<and> length (rws (reward b)) = nat C \<and>
       length (rws (s_next b)) = nat C \<and>
       (\<forall>i < nat C. \<exists>j.
          most_recent_writer (nat C) (length ts) i = Some j \<and>
          j < length ts \<and> j mod nat C = i \<and>
          (\<forall>j' < length ts. j' mod nat C = i \<longrightarrow> j' \<le> j) \<and>
          rws (state b) ! i = fst (ts ! j) \<and>
          rws (reward b) ! i = [fst (snd (ts ! j))] \<and>
          rws (s_next b) ! i = snd (snd (ts ! j))))) \<and>
   (0 < C \<and> 0 \<le> d \<and> MemoryBuffer_init C d = Inr b_start \<and> store_all b_start ts = Inr b_end \<and>
    length ts = nat C + k \<longrightarrow>
    pointer b_end = int (k mod nat C) \<and>
    (\<forall>i < nat C. \<exists>j.
       most_recent_writer (nat C) (length ts) i = Some j \<and>
       j < length ts \<and> j mod nat C = i \<and>
       (\<forall>j' < length ts. j' mod nat C = i \<longrightarrow> j' \<le> j) \<and>
       rws (state b_end) ! i = as_row (nat d) (fst (ts ! j)) \<and>
       rws (reward b_end) ! i = [fst (snd (ts ! j))] \<and>
       rws (s_next b_end) ! i = as_row (nat d) (snd (snd (ts ! j))))) \<and>
   (\<exists>b0 b. MemoryBuffer_init 4 1 = Inr b0 \<and>
      store_all b0 [([1], r1, [n1]), ([2], r2, [n2]), ([3], r3, [n3]), ([4], r4, [n4]),
                    ([5], r5, [n5])] = Inr b \<and>
      rws (state b) = [[5], [2], [3], [4]] \<and> pointer b = 1)"
proof (intro conjI impI)
  assume a: "0 < C \<and> 0 \<le> d \<and>
    (\<forall>t \<in> set ts. length (fst t) = nat d \<and> length (snd (snd t)) = nat d) \<and>
    length ts = nat C + k"
  then have C: "0 < C" and d: "0 \<le> d" and len: "length ts = nat C + k"
    and dims: "\<forall>t \<in> set ts. length (fst t) = nat d \<and> length (snd (snd t)) = nat d"
    by blast+
  from C d obtain b0 where b0: "MemoryBuffer_init C d = Inr b0" and p0: "pointer b0 = 0"
    by (simp add: MemoryBuffer_init_Inr)
  from store_all_fresh[OF C d b0 dims] obtain b where
    b: "store_all b0 ts = Inr b" and ok: "buffer_ok b" and cap: "capacity b = C"
    and p: "pointer b = int (length ts) mod C"
    and rows: "\<And>i. i < nat C \<Longrightarrow>
            rws (state b) ! i =
              (case most_recent_writer (nat C) (length ts) i of
                 None \<Rightarrow> replicate (nat d) 0 | Some j \<Rightarrow> fst (ts ! j)) \<and>
            rws (reward b) ! i =
              (case most_recent_writer (nat C) (length ts) i of
                 None \<Rightarrow> [0] | Some j \<Rightarrow> [fst (snd (ts ! j))]) \<and>
            rws (s_next b) ! i =
              (case most_recent_writer (nat C) (length ts) i of
                 None \<Rightarrow> replicate (nat d) 0 | Some j \<Rightarrow> snd (snd (ts ! j)))"
    by blast
  have p': "pointer b = int (k mod nat C)"
    using C by (simp add: p len zmod_int)
  have lens: "length (rws (state b)) = nat C" "length (rws (reward b)) = nat C"
       "length (rws (s_next b)) = nat C"
    using ok cap by (simp_all add: buffer_ok_def)
  have "\<exists>j. most_recent_writer (nat C) (length ts) i = Some j \<and>
          j < length ts \<and> j mod nat C = i \<and>
          (\<forall>j' < length ts. j' mod nat C = i \<longrightarrow> j' \<le> j) \<and>
          rws (state b) ! i = fst (ts ! j) \<and>
          rws (reward b) ! i = [fst (snd (ts ! j))] \<and>
          rws (s_next b) ! i = snd (snd (ts ! j))" if i: "i < nat C" for i
  proof -
    from i len obtain j where j: "most_recent_writer (nat C) (length ts) i = Some j"
      using most_recent_writer_full[of i "nat C" "length ts"] by auto
    from most_recent_writer_Some[OF j] rows[OF i] j show ?thesis by simp
  qed
  with b0 p0 b p' lens
  show "\<exists>b0 b. MemoryBuffer_init C d = Inr b0 \<and> pointer b0 = 0 \<and>
       store_all b0 ts = Inr b \<and> pointer b = int (k mod nat C) \<and>
       length (rws (state b)) = nat C \<and> length (rws (reward b)) = nat C \<and>
       length (rws (s_next b)) = nat C \<and>
       (\<forall>i < nat C. \<exists>j.
          most_recent_writer (nat C) (length ts) i = Some j \<and>
          j < length ts \<and> j mod nat C = i \<and>
          (\<forall>j' < length ts. j' mod nat C = i \<longrightarrow> j' \<le> j) \<and>
          rws (state b) ! i = fst (ts ! j) \<and>
          rws (reward b) ! i = [fst (snd (ts ! j))] \<and>
          rws (s_next b) ! i = snd (snd (ts ! j)))"
    by blast
next
  assume a: "0 < C \<and> 0 \<le> d \<and> MemoryBuffer_init C d = Inr b_start \<and> store_all b_start ts = Inr b_end \<and>
    length ts = nat C + k"
  then have C: "0 < C" and d: "0 \<le> d" and len: "length ts = nat C + k"
    and b0: "MemoryBuffer_init C d = Inr b_start" and b: "store_all b_start ts = Inr b_end"
    by blast+
  from store_all_rows[OF C d b0 b] have p: "pointer b_end = int (length ts) mod C"
    and rows: "\<And>i. i < nat C \<Longrightarrow>
        rws (state b_end) ! i =
          (case most_recent_writer (nat C) (length ts) i of
             None \<Rightarrow> replicate (nat d) 0 | Some j \<Rightarrow> as_row (nat d) (fst (ts ! j))) \<and>
        rws (reward b_end) ! i =
          (case most_recent_writer (nat C) (length ts) i of
             None \<Rightarrow> [0] | Some j \<Rightarrow> [fst (snd (ts ! j))]) \<and>
        rws (s_next b_end) ! i =
          (case most_recent_writer (nat C) (length ts) i of
             None \<Rightarrow> replicate (nat d) 0 | Some j \<Rightarrow> as_row (nat d) (snd (snd (ts ! j))))"
    by blast+
  have p': "pointer b_end = int (k mod nat C)"
    using C by (simp add: p len zmod_int)
  have "\<exists>j. most_recent_writer (nat C) (length ts) i = Some j \<and>
          j < length ts \<and> j mod nat C = i \<and>
          (\<forall>j' < length ts. j' mod nat C = i \<longrightarrow> j' \<le> j) \<and>
          rws (state b_end) ! i = as_row (nat d) (fst (ts ! j)) \<and>
          rws (reward b_end) ! i = [fst (snd (ts ! j))] \<and>
          rws (s_next b_end) ! i = as_row (nat d) (snd (snd (ts ! j)))" if i: "i < nat C" for i
  proof -
    from i len obtain j where j: "most_recent_writer (nat C) (length ts) i = Some j"
      using most_recent_writer_full[of i "nat C" "length ts"] by auto
    from most_recent_writer_Some[OF j] rows[OF i] j show ?thesis by simp
  qed
  then show "\<forall>i < nat C. \<exists>j.
       most_recent_writer (nat C) (length ts) i = Some j \<and>
       j < length ts \<and> j mod nat C = i \<and>
       (\<forall>j' < length ts. j' mod nat C = i \<longrightarrow> j' \<le> j) \<and>
       rws (state b_end) ! i = as_row (nat d) (fst (ts ! j)) \<and>
       rws (reward b_end) ! i = [fst (snd (ts ! j))] \<and>
       rws (s_next b_end) ! i = as_row (nat d) (snd (snd (ts ! j)))"
    by blast
  from p' show "pointer b_end = int (k mod nat C)" .
next
  show "\<exists>b0 b. MemoryBuffer_init 4 1 = Inr b0 \<and>
      store_all b0 [([1], r1, [n1]), ([2], r2, [n2]), ([3], r3, [n3]), ([4], r4, [n4]),
                    ([5], r5, [n5])] = Inr b \<and>
      rws (state b) = [[5], [2], [3], [4]] \<and> pointer b = 1"
    by (simp add: MemoryBuffer_init_Inr store_transition_Inr buffer_ok_def bind_err_def
        numeral_eq_Suc)
qed

theorem circular_overwrite_witness:
  "(0::int) < 4 \<and> (0::int) \<le> 1 \<and>
   list_all (\<lambda>t. length (fst t) = nat 1 \<and> length (snd (snd t)) = nat 1)
     [([1], 0, [2]), ([2], 0, [3]), ([3], 0, [4]), ([4], 0, [5]), ([5::real], 0::real, [6::real])] \<and>
   length [([1], 0, [2]), ([2], 0, [3]), ([3], 0, [4]), ([4], 0, [5]), ([5::real], 0::real, [6::real])]
     = nat 4 + 1 \<and>
   (\<exists>b0 b. MemoryBuffer_init 4 1 = Inr b0 \<and>
      store_all b0 [([1], 0, [2]), ([2], 0, [3]), ([3], 0, [4]), ([4], 0, [5]), ([5], 0, [6])] = Inr b \<and>
      pointer b = 1 \<and> length (rws (state b)) = 4 \<and>
      (\<exists>j. most_recent_writer 4 5 0 = Some j \<and>
           rws (state b) ! 0 =
             as_row 1 (fst ([([1], 0, [2]), ([2], 0, [3]), ([3], 0, [4]), ([4], 0, [5]),
                             ([5::real], 0::real, [6::real])] ! j))))"
proof -
  let ?ts = "[([1], 0, [2]), ([2], 0, [3]), ([3], 0, [4]), ([4], 0, [5]), ([5::real], 0::real, [6::real])]"
  have hyp: "(0::int) < 4 \<and> (0::int) \<le> 1 \<and>
    (\<forall>t \<in> set ?ts. length (fst t) = nat 1 \<and> length (snd (snd t)) = nat 1) \<and>
    length ?ts = nat 4 + 1"
    by simp
  from circular_overwrite [of 4 1 ?ts 1, THEN conjunct1] hyp
  obtain b0 b where b: "MemoryBuffer_init 4 1 = Inr b0" "store_all b0 ?ts = Inr b"
    "pointer b = int (1 mod nat 4)" "length (rws (state b)) = nat 4"
    by blast
  have hyp2: "(0::int) < 4 \<and> (0::int) \<le> 1 \<and> MemoryBuffer_init 4 1 = Inr b0 \<and>
    store_all b0 ?ts = Inr b \<and> length ?ts = nat 4 + 1"
    using b by simp
  from circular_overwrite [of 4 1 ?ts 1 b0 b, THEN conjunct2, THEN conjunct1] hyp2
  have "\<forall>i < nat 4. \<exists>j. most_recent_writer (nat 4) (length ?ts) i = Some j \<and>
      rws (state b) ! i = as_row (nat 1) (fst (?ts ! j))"
    by blast
  moreover have l: "length ?ts = 5" "nat 4 = (4::nat)" "nat 1 = (1::nat)" "(0::nat) < 4"
    by simp_all
  ultimately have "\<exists>j. most_recent_writer 4 5 0 = Some j \<and>
      rws (state b) ! 0 = as_row 1 (fst (?ts ! j))"
    unfolding l by blast
  moreover from b have "pointer b = 1" "length (rws (state b)) = 4" by simp_all
  ultimately have e: "\<exists>b0 b. MemoryBuffer_init 4 1 = Inr b0 \<and> store_all b0 ?ts = Inr b \<and>
      pointer b = 1 \<and> length (rws (state b)) = 4 \<and>
      (\<exists>j. most_recent_writer 4 5 0 = Some j \<and>
           rws (state b) ! 0 = as_row 1 (fst (?ts ! j)))"
    using b(1,2) by blast
  have la: "list_all (\<lambda>t. length (fst t) = nat 1 \<and> length (snd (snd t)) = nat 1) ?ts"
    by simp
  have h: "(0::int) < 4" "(0::int) \<le> 1" "length ?ts = nat 4 + 1" by simp_all
  show ?thesis by (intro conjI h la e)
qed

lemma take_rows_Inr:
  assumes "\<forall>i \<in> set idx. 0 \<le> i \<and> i < int (length (rws a))"
  shows "take_rows a idx = Inr \<lparr>ncols = ncols a, rws = map (\<lambda>i. rws a ! nat i) idx\<rparr>"
proof -
  from assms have "\<forall>i \<in> set idx. - int (length (rws a)) \<le> i \<and> i < int (length (rws a))"
    by auto
  moreover from assms
  have "map (\<lambda>i. rws a ! nat (if i < 0 then int (length (rws a)) + i else i)) idx =
        map (\<lambda>i. rws a ! nat i) idx"
    by (intro map_cong) auto
  ultimately show ?thesis by (simp add: take_rows_def)
qed

lemma randint_Inr:
  assumes "0 < C" "0 \<le> n"
  shows "randint 0 C n raw = Inr (map (\<lambda>k. int (raw k mod nat C)) [0..<nat n])"
  using assms by (simp add: randint_def)

lemma randint_onto:
  assumes C: "0 < C" and n: "0 \<le> n" and len: "length v = nat n"
    and v: "\<forall>i \<in> set v. 0 \<le> i \<and> i < C"
  shows "randint 0 C n (\<lambda>k. nat (v ! k)) = Inr v"
proof -
  have "map (\<lambda>k. int (nat (v ! k) mod nat C)) [0..<nat n] = v"
  proof (rule nth_equalityI)
    show "length (map (\<lambda>k. int (nat (v ! k) mod nat C)) [0..<nat n]) = length v"
      by (simp add: len)
  next
    fix k assume "k < length (map (\<lambda>k. int (nat (v ! k) mod nat C)) [0..<nat n])"
    then have k: "k < length v" by (simp add: len)
    with v have "0 \<le> v ! k" "v ! k < C" by (auto simp: all_set_conv_all_nth)
    then show "map (\<lambda>k. int (nat (v ! k) mod nat C)) [0..<nat n] ! k = v ! k"
      using k len by simp
  qed
  then show ?thesis by (simp add: randint_Inr[OF C n])
qed

lemma raw_vectors_card:
  fixes c m N :: nat
  assumes c: "0 < c" and len: "length v = N" and v: "\<forall>i \<in> set v. 0 \<le> i \<and> i < int c"
  shows "card {us. length us = N \<and> set us \<subseteq> {..<m * c} \<and>
                  map (\<lambda>k. int (us ! k mod c)) [0..<N] = v} = m ^ N"
proof -
  let ?S = "{us. length us = N \<and> set us \<subseteq> {..<m * c} \<and>
                  map (\<lambda>k. int (us ! k mod c)) [0..<N] = v}"
  let ?Q = "{qs. set qs \<subseteq> {..<m} \<and> length qs = N}"
  let ?f = "\<lambda>qs. map (\<lambda>k. qs ! k * c + nat (v ! k)) [0..<N]"
  let ?g = "\<lambda>us. map (\<lambda>u. u div c) us"
  have vk: "0 \<le> v ! k \<and> v ! k < int c" if "k < N" for k
    using v len that by (auto simp: all_set_conv_all_nth)
  have nvk: "nat (v ! k) < c" if "k < N" for k
    using vk[OF that] by linarith
  have "bij_betw ?f ?Q ?S"
  proof (rule bij_betw_byWitness[where f' = ?g])
    show "\<forall>qs \<in> ?Q. ?g (?f qs) = qs"
    proof
      fix qs assume "qs \<in> ?Q"
      then have l: "length qs = N" by simp
      show "?g (?f qs) = qs"
      proof (rule nth_equalityI)
        show "length (?g (?f qs)) = length qs" by (simp add: l)
      next
        fix k assume "k < length (?g (?f qs))"
        then have k: "k < N" by simp
        from nvk[OF k] show "?g (?f qs) ! k = qs ! k"
          using k c by simp
      qed
    qed
  next
    show "\<forall>us \<in> ?S. ?f (?g us) = us"
    proof
      fix us assume us: "us \<in> ?S"
      then have l: "length us = N" and e: "map (\<lambda>k. int (us ! k mod c)) [0..<N] = v" by simp_all
      show "?f (?g us) = us"
      proof (rule nth_equalityI)
        show "length (?f (?g us)) = length us" by (simp add: l)
      next
        fix k assume "k < length (?f (?g us))"
        then have k: "k < N" by simp
        from e k have "v ! k = int (us ! k mod c)"
          by (metis (no_types, lifting) add_0 diff_zero length_upt nth_map nth_upt)
        then show "?f (?g us) ! k = us ! k"
          using k l by simp
      qed
    qed
  next
    show "?f ` ?Q \<subseteq> ?S"
    proof
      fix us assume "us \<in> ?f ` ?Q"
      then obtain qs where qs: "set qs \<subseteq> {..<m}" "length qs = N" and us: "us = ?f qs" by auto
      have lt: "qs ! k * c + nat (v ! k) < m * c" if k: "k < N" for k
      proof -
        from qs k have "qs ! k < m" by (metis lessThan_iff nth_mem subsetD)
        then have "Suc (qs ! k) * c \<le> m * c" by (intro mult_le_mono1) simp
        with nvk[OF k] show ?thesis by simp
      qed
      have 1: "length us = N" by (simp add: us)
      have 2: "set us \<subseteq> {..<m * c}"
        using lt by (auto simp: us)
      have 3: "map (\<lambda>k. int (us ! k mod c)) [0..<N] = v"
      proof (rule nth_equalityI)
        show "length (map (\<lambda>k. int (us ! k mod c)) [0..<N]) = length v" by (simp add: len)
      next
        fix k assume "k < length (map (\<lambda>k. int (us ! k mod c)) [0..<N])"
        then have k: "k < N" by simp
        from vk[OF k] nvk[OF k] have "nat (v ! k) < c" "0 \<le> v ! k" by simp_all
        then show "map (\<lambda>k. int (us ! k mod c)) [0..<N] ! k = v ! k"
          using k by (simp add: us)
      qed
      from 1 2 3 show "us \<in> ?S" by simp
    qed
  next
    show "?g ` ?S \<subseteq> ?Q"
    proof
      fix qs assume "qs \<in> ?g ` ?S"
      then obtain us where us: "length us = N" "set us \<subseteq> {..<m * c}" and qs: "qs = ?g us"
        by auto
      have "u div c < m" if "u \<in> set us" for u
      proof -
        from us that have "u < m * c" by auto
        then show ?thesis by (simp add: less_mult_imp_div_less)
      qed
      then show "qs \<in> ?Q" using us by (auto simp: qs)
    qed
  qed
  then have "card ?S = card ?Q" by (simp add: bij_betw_same_card)
  also have "\<dots> = m ^ N"
    using card_lists_length_eq[of "{..<m}" N] by simp
  finally show ?thesis .
qed

lemma take_rows_map:
  assumes "\<forall>k < length idx. 0 \<le> idx ! k \<and> idx ! k < int (length (rws a))"
  shows "take_rows a idx = Inr \<lparr>ncols = ncols a, rws = map (\<lambda>i. rws a ! nat i) idx\<rparr>"
  using assms by (intro take_rows_Inr) (auto simp: all_set_conv_all_nth)

lemma raw_mod_less: "0 < C \<Longrightarrow> int (u mod nat C) < C"
proof -
  assume C: "0 < C"
  then have "u mod nat C < nat C" by simp
  then have "int (u mod nat C) < int (nat C)" by (simp only: of_nat_less_iff)
  with C show ?thesis by simp
qed

lemma sample_Inr:
  assumes ok: "buffer_ok b" and n: "0 \<le> n"
  shows "sample b n raw =
     Inr ((\<lparr>ncols = ncols (state b),
            rws = map (\<lambda>i. rws (state b) ! nat i)
                    (map (\<lambda>k. int (raw k mod nat (capacity b))) [0..<nat n])\<rparr>,
           \<lparr>ncols = ncols (reward b),
            rws = map (\<lambda>i. rws (reward b) ! nat i)
                    (map (\<lambda>k. int (raw k mod nat (capacity b))) [0..<nat n])\<rparr>,
           \<lparr>ncols = ncols (s_next b),
            rws = map (\<lambda>i. rws (s_next b) ! nat i)
                    (map (\<lambda>k. int (raw k mod nat (capacity b))) [0..<nat n])\<rparr>), b)"
proof -
  from ok have C: "0 < capacity b" and
    len: "length (rws (state b)) = nat (capacity b)" "length (rws (reward b)) = nat (capacity b)"
      "length (rws (s_next b)) = nat (capacity b)"
    by (simp_all add: buffer_ok_def)
  let ?idx = "map (\<lambda>k. int (raw k mod nat (capacity b))) [0..<nat n]"
  have r: "randint 0 (capacity b) n raw = Inr ?idx" by (rule randint_Inr[OF C n])
  have v: "\<forall>k < length ?idx. 0 \<le> ?idx ! k \<and> ?idx ! k < int (nat (capacity b))"
    using C raw_mod_less[OF C] by simp
  have t1: "take_rows (state b) ?idx =
      Inr \<lparr>ncols = ncols (state b), rws = map (\<lambda>i. rws (state b) ! nat i) ?idx\<rparr>"
    by (rule take_rows_map) (use v len in simp)
  have t2: "take_rows (reward b) ?idx =
      Inr \<lparr>ncols = ncols (reward b), rws = map (\<lambda>i. rws (reward b) ! nat i) ?idx\<rparr>"
    by (rule take_rows_map) (use v len in simp)
  have t3: "take_rows (s_next b) ?idx =
      Inr \<lparr>ncols = ncols (s_next b), rws = map (\<lambda>i. rws (s_next b) ! nat i) ?idx\<rparr>"
    by (rule take_rows_map) (use v len in simp)
  show ?thesis
    unfolding sample_def r by (simp only: bind_err_def sum.case t1 t2 t3)
qed

text \<open>
  C2 (sample bounds). On a store of capacity \<open>C > 0\<close>, whatever its pointer and its
  rows, \<^verbatim>\<open>sample(n)\<close> returns for every \<open>n \<ge> 0\<close> and every state of the random
  generator. The indices that it draws are the raw numbers reduced into \<open>[0, C)\<close>, the
  range that \<^verbatim>\<open>sample\<close> passes to \<^verbatim>\<open>randint\<close>: there are \<open>n\<close> of them, each is in
  \<open>[0, C)\<close>, and they depend on the capacity and on no other field of the store. The
  three arrays have \<open>n\<close> rows, and row \<open>k\<close> of each is the row of the store at the
  same index \<open>idx ! k\<close>. A call with \<open>n < 0\<close> raises ValueError.

  Every vector of \<open>n\<close> indices in \<open>[0, C)\<close>, with or without repetitions, is drawn
  for some raw numbers; and among the vectors of \<open>n\<close> raw numbers below \<open>m \<cdot> C\<close>
  every such index vector is drawn by the same number \<open>m ^ n\<close> of them. So raw numbers
  that are uniform and independent give index vectors that are uniform on \<open>[0, C) ^ n\<close>,
  that is indices that are uniform on \<open>[0, C)\<close> and independent.
\<close>

theorem sample_bounds:
  "(buffer_ok b \<and> 0 \<le> n \<longrightarrow>
     (\<exists>idx st rw sn.
        randint 0 (capacity b) n raw = Inr idx \<and>
        idx = map (\<lambda>k. int (raw k mod nat (capacity b))) [0..<nat n] \<and>
        sample b n raw = Inr ((st, rw, sn), b) \<and>
        length idx = nat n \<and>
        length (rws st) = nat n \<and> length (rws rw) = nat n \<and> length (rws sn) = nat n \<and>
        (\<forall>k < nat n. 0 \<le> idx ! k \<and> idx ! k < capacity b \<and>
           rws st ! k = rws (state b) ! nat (idx ! k) \<and>
           rws rw ! k = rws (reward b) ! nat (idx ! k) \<and>
           rws sn ! k = rws (s_next b) ! nat (idx ! k)))) \<and>
   (buffer_ok b \<and> 0 \<le> n \<and> length v = nat n \<and> (\<forall>i \<in> set v. 0 \<le> i \<and> i < capacity b) \<longrightarrow>
      (\<exists>raw. randint 0 (capacity b) n raw = Inr v) \<and>
      card {us. length us = nat n \<and> set us \<subseteq> {..<m * nat (capacity b)} \<and>
                randint 0 (capacity b) n (\<lambda>k. us ! k) = Inr v} = m ^ nat n) \<and>
   (n < 0 \<longrightarrow> sample b n raw = Inl ValueError)"
proof (intro conjI impI)
  assume a: "buffer_ok b \<and> 0 \<le> n"
  then have C: "0 < capacity b" and n: "0 \<le> n" by (simp_all add: buffer_ok_def)
  let ?idx = "map (\<lambda>k. int (raw k mod nat (capacity b))) [0..<nat n]"
  have r: "randint 0 (capacity b) n raw = Inr ?idx" by (rule randint_Inr[OF C n])
  let ?st = "\<lparr>ncols = ncols (state b), rws = map (\<lambda>i. rws (state b) ! nat i) ?idx\<rparr>"
  let ?rw = "\<lparr>ncols = ncols (reward b), rws = map (\<lambda>i. rws (reward b) ! nat i) ?idx\<rparr>"
  let ?sn = "\<lparr>ncols = ncols (s_next b), rws = map (\<lambda>i. rws (s_next b) ! nat i) ?idx\<rparr>"
  note s = sample_Inr[of b n raw]
  have "sample b n raw = Inr ((
        \<lparr>ncols = ncols (state b), rws = map (\<lambda>i. rws (state b) ! nat i) ?idx\<rparr>,
        \<lparr>ncols = ncols (reward b), rws = map (\<lambda>i. rws (reward b) ! nat i) ?idx\<rparr>,
        \<lparr>ncols = ncols (s_next b), rws = map (\<lambda>i. rws (s_next b) ! nat i) ?idx\<rparr>), b) \<and>
      length ?idx = nat n \<and>
      (\<forall>k < nat n. 0 \<le> ?idx ! k \<and> ?idx ! k < capacity b)"
    using a C raw_mod_less[OF C] by (simp add: s)
  with r have "randint 0 (capacity b) n raw = Inr ?idx \<and>
        ?idx = map (\<lambda>k. int (raw k mod nat (capacity b))) [0..<nat n] \<and>
        sample b n raw = Inr ((?st, ?rw, ?sn), b) \<and>
        length ?idx = nat n \<and>
        length (rws ?st) = nat n \<and> length (rws ?rw) = nat n \<and> length (rws ?sn) = nat n \<and>
        (\<forall>k < nat n. 0 \<le> ?idx ! k \<and> ?idx ! k < capacity b \<and>
           rws ?st ! k = rws (state b) ! nat (?idx ! k) \<and>
           rws ?rw ! k = rws (reward b) ! nat (?idx ! k) \<and>
           rws ?sn ! k = rws (s_next b) ! nat (?idx ! k))"
    by (simp del: map_map)
  then show "\<exists>idx st rw sn.
        randint 0 (capacity b) n raw = Inr idx \<and>
        idx = map (\<lambda>k. int (raw k mod nat (capacity b))) [0..<nat n] \<and>
        sample b n raw = Inr ((st, rw, sn), b) \<and>
        length idx = nat n \<and>
        length (rws st) = nat n \<and> length (rws rw) = nat n \<and> length (rws sn) = nat n \<and>
        (\<forall>k < nat n. 0 \<le> idx ! k \<and> idx ! k < capacity b \<and>
           rws st ! k = rws (state b) ! nat (idx ! k) \<and>
           rws rw ! k = rws (reward b) ! nat (idx ! k) \<and>
           rws sn ! k = rws (s_next b) ! nat (idx ! k))"
    by blast
next
  assume a: "buffer_ok b \<and> 0 \<le> n \<and> length v = nat n \<and>
    (\<forall>i \<in> set v. 0 \<le> i \<and> i < capacity b)"
  then have C: "0 < capacity b" and n: "0 \<le> n" and len: "length v = nat n"
    and v: "\<forall>i \<in> set v. 0 \<le> i \<and> i < capacity b"
    by (simp_all add: buffer_ok_def)
  from randint_onto[OF C n len v] show "\<exists>raw. randint 0 (capacity b) n raw = Inr v" by blast
  have c: "0 < nat (capacity b)" using C by simp
  have v': "\<forall>i \<in> set v. 0 \<le> i \<and> i < int (nat (capacity b))" using v C by simp
  have "{us. length us = nat n \<and> set us \<subseteq> {..<m * nat (capacity b)} \<and>
                randint 0 (capacity b) n (\<lambda>k. us ! k) = Inr v} =
        {us. length us = nat n \<and> set us \<subseteq> {..<m * nat (capacity b)} \<and>
                map (\<lambda>k. int (us ! k mod nat (capacity b))) [0..<nat n] = v}"
    by (simp add: randint_Inr[OF C n])
  then show "card {us. length us = nat n \<and> set us \<subseteq> {..<m * nat (capacity b)} \<and>
                randint 0 (capacity b) n (\<lambda>k. us ! k) = Inr v} = m ^ nat n"
    using raw_vectors_card[OF c len v', of m] by simp
next
  assume "n < 0"
  then show "sample b n raw = Inl ValueError"
    by (simp add: sample_def randint_def bind_err_def)
qed

theorem sample_bounds_witness:
  "buffer_ok \<lparr>capacity = 2, state = \<lparr>ncols = 1, rws = [[5], [6]]\<rparr>,
              reward = \<lparr>ncols = 1, rws = [[7], [8]]\<rparr>,
              s_next = \<lparr>ncols = 1, rws = [[9], [0]]\<rparr>, pointer = 1\<rparr> \<and>
   randint 0 2 3 (\<lambda>k. [1, 3, 0] ! k) = Inr [1, 1, 0] \<and>
   sample \<lparr>capacity = 2, state = \<lparr>ncols = 1, rws = [[5], [6]]\<rparr>,
              reward = \<lparr>ncols = 1, rws = [[7], [8]]\<rparr>,
              s_next = \<lparr>ncols = 1, rws = [[9], [0]]\<rparr>, pointer = 1\<rparr> 3 (\<lambda>k. [1, 3, 0] ! k) =
     Inr ((\<lparr>ncols = 1, rws = [[6], [6], [5]]\<rparr>, \<lparr>ncols = 1, rws = [[8], [8], [7]]\<rparr>,
           \<lparr>ncols = 1, rws = [[0], [0], [9]]\<rparr>),
          \<lparr>capacity = 2, state = \<lparr>ncols = 1, rws = [[5], [6]]\<rparr>,
              reward = \<lparr>ncols = 1, rws = [[7], [8]]\<rparr>,
              s_next = \<lparr>ncols = 1, rws = [[9], [0]]\<rparr>, pointer = 1\<rparr>) \<and>
   card {us. length us = 3 \<and> set us \<subseteq> {..<4} \<and>
             randint 0 2 3 (\<lambda>k. us ! k) = Inr [1, 1, 0]} = 8"
proof -
  let ?b = "\<lparr>capacity = 2, state = \<lparr>ncols = 1, rws = [[5], [6]]\<rparr>,
              reward = \<lparr>ncols = 1, rws = [[7], [8]]\<rparr>,
              s_next = \<lparr>ncols = 1, rws = [[9], [0]]\<rparr>, pointer = 1\<rparr>"
  let ?raw = "\<lambda>k. [1, 3, 0::nat] ! k"
  have ok: "buffer_ok ?b" by (simp add: buffer_ok_def)
  have n: "(0::int) \<le> 3" by simp
  have up: "[0..<nat 3] = [0, 1, 2]" "[0..<3] = [0, 1, 2::nat]" by (simp_all add: upt_rec)
  from sample_bounds [of ?b 3 ?raw, THEN conjunct1] ok n
  obtain idx st rw sn where r: "randint 0 (capacity ?b) 3 ?raw = Inr idx"
    and i: "idx = map (\<lambda>k. int (?raw k mod nat (capacity ?b))) [0..<nat 3]"
    and s: "sample ?b 3 ?raw = Inr ((st, rw, sn), ?b)"
    and l: "length (rws st) = nat 3" "length (rws rw) = nat 3" "length (rws sn) = nat 3"
    and rows: "\<forall>k < nat 3. rws st ! k = rws (state ?b) ! nat (idx ! k) \<and>
           rws rw ! k = rws (reward ?b) ! nat (idx ! k) \<and>
           rws sn ! k = rws (s_next ?b) ! nat (idx ! k)"
    by blast
  from i have idx: "idx = [1, 1, 0]" by (simp add: up)
  have e: "sample ?b 3 ?raw =
     Inr ((\<lparr>ncols = 1, rws = [[6], [6], [5]]\<rparr>, \<lparr>ncols = 1, rws = [[8], [8], [7]]\<rparr>,
           \<lparr>ncols = 1, rws = [[0], [0], [9]]\<rparr>), ?b)"
    by (simp add: sample_def randint_def take_rows_def bind_err_def up)
  have v: "buffer_ok ?b \<and> (0::int) \<le> 3 \<and> length [1, 1, 0::int] = nat 3 \<and>
     (\<forall>i \<in> set [1, 1, 0::int]. 0 \<le> i \<and> i < capacity ?b)"
    using ok by simp
  from sample_bounds [of ?b 3 _ "[1, 1, 0]" 2, THEN conjunct2, THEN conjunct1] v
  have "card {us. length us = nat 3 \<and> set us \<subseteq> {..<2 * nat (capacity ?b)} \<and>
                randint 0 (capacity ?b) 3 (\<lambda>k. us ! k) = Inr [1, 1, 0]} = 2 ^ nat 3"
    by blast
  then have c: "card {us. length us = 3 \<and> set us \<subseteq> {..<4} \<and>
             randint 0 2 3 (\<lambda>k. us ! k) = Inr [1, 1, 0]} = 8"
    by simp
  from r idx have "randint 0 2 3 ?raw = Inr [1, 1, 0]" by simp
  with ok e c show ?thesis by blast
qed

text \<open>
  C10 (sampling is read-only). A call of \<^verbatim>\<open>sample\<close> that returns leaves the store as it
  was: the three arrays, the pointer and the capacity are the same, so a later
  \<^verbatim>\<open>sample\<close> or \<^verbatim>\<open>store_transition\<close> behaves as it would have without the call.
\<close>

theorem sample_read_only:
  "sample b n raw = Inr (res, b') \<longrightarrow>
     b' = b \<and> state b' = state b \<and> reward b' = reward b \<and> s_next b' = s_next b \<and>
     pointer b' = pointer b \<and> capacity b' = capacity b \<and>
     sample b' n2 raw2 = sample b n2 raw2 \<and>
     store_transition b' s r sn = store_transition b s r sn"
proof
  assume "sample b n raw = Inr (res, b')"
  then have "b' = b"
    by (auto simp: sample_def bind_err_Inr_iff)
  then show "b' = b \<and> state b' = state b \<and> reward b' = reward b \<and> s_next b' = s_next b \<and>
     pointer b' = pointer b \<and> capacity b' = capacity b \<and>
     sample b' n2 raw2 = sample b n2 raw2 \<and>
     store_transition b' s r sn = store_transition b s r sn"
    by simp
qed

theorem sample_read_only_witness:
  "sample \<lparr>capacity = 2, state = \<lparr>ncols = 1, rws = [[5], [6]]\<rparr>,
              reward = \<lparr>ncols = 1, rws = [[7], [8]]\<rparr>,
              s_next = \<lparr>ncols = 1, rws = [[9], [0]]\<rparr>, pointer = 1\<rparr> 1 (\<lambda>k. 0) =
     Inr ((\<lparr>ncols = 1, rws = [[5]]\<rparr>, \<lparr>ncols = 1, rws = [[7]]\<rparr>, \<lparr>ncols = 1, rws = [[9]]\<rparr>),
          \<lparr>capacity = 2, state = \<lparr>ncols = 1, rws = [[5], [6]]\<rparr>,
              reward = \<lparr>ncols = 1, rws = [[7], [8]]\<rparr>,
              s_next = \<lparr>ncols = 1, rws = [[9], [0]]\<rparr>, pointer = 1\<rparr>) \<and>
   snd (projr (sample \<lparr>capacity = 2, state = \<lparr>ncols = 1, rws = [[5], [6]]\<rparr>,
              reward = \<lparr>ncols = 1, rws = [[7], [8]]\<rparr>,
              s_next = \<lparr>ncols = 1, rws = [[9], [0]]\<rparr>, pointer = 1\<rparr> 1 (\<lambda>k. 0))) =
     \<lparr>capacity = 2, state = \<lparr>ncols = 1, rws = [[5], [6]]\<rparr>,
              reward = \<lparr>ncols = 1, rws = [[7], [8]]\<rparr>,
              s_next = \<lparr>ncols = 1, rws = [[9], [0]]\<rparr>, pointer = 1\<rparr> \<and>
   store_transition (snd (projr (sample \<lparr>capacity = 2, state = \<lparr>ncols = 1, rws = [[5], [6]]\<rparr>,
              reward = \<lparr>ncols = 1, rws = [[7], [8]]\<rparr>,
              s_next = \<lparr>ncols = 1, rws = [[9], [0]]\<rparr>, pointer = 1\<rparr> 1 (\<lambda>k. 0)))) [1] 2 [3] =
     store_transition \<lparr>capacity = 2, state = \<lparr>ncols = 1, rws = [[5], [6]]\<rparr>,
              reward = \<lparr>ncols = 1, rws = [[7], [8]]\<rparr>,
              s_next = \<lparr>ncols = 1, rws = [[9], [0]]\<rparr>, pointer = 1\<rparr> [1] 2 [3]"
proof -
  let ?b = "\<lparr>capacity = 2, state = \<lparr>ncols = 1, rws = [[5], [6]]\<rparr>,
              reward = \<lparr>ncols = 1, rws = [[7], [8]]\<rparr>,
              s_next = \<lparr>ncols = 1, rws = [[9], [0]]\<rparr>, pointer = 1\<rparr>"
  let ?res = "(\<lparr>ncols = 1, rws = [[5]]\<rparr>, \<lparr>ncols = 1, rws = [[7]]\<rparr>, \<lparr>ncols = 1, rws = [[9::real]]\<rparr>)"
  have s: "sample ?b 1 (\<lambda>k. 0) = Inr (?res, ?b)"
    by (simp add: sample_def randint_def take_rows_def bind_err_def)
  then have h: "sample ?b 1 (\<lambda>k. 0) =
      Inr (fst (projr (sample ?b 1 (\<lambda>k. 0))), snd (projr (sample ?b 1 (\<lambda>k. 0))))"
    by simp
  from sample_read_only [of ?b 1 "\<lambda>k. 0" "fst (projr (sample ?b 1 (\<lambda>k. 0)))"
      "snd (projr (sample ?b 1 (\<lambda>k. 0)))" _ _ "[1]" 2 "[3]"] h
  have "snd (projr (sample ?b 1 (\<lambda>k. 0))) = ?b"
    "store_transition (snd (projr (sample ?b 1 (\<lambda>k. 0)))) [1] 2 [3] = store_transition ?b [1] 2 [3]"
    by blast+
  with s show ?thesis by blast
qed

lemma init_loop_returns:
  assumes rs: "\<forall>w. length (fst (env_reset w)) = d"
    and st: "\<forall>w s. length (fst (fst (act_step w s))) = d"
  shows "buffer_ok b \<Longrightarrow> ncols (state b) = d \<Longrightarrow> length s = d \<Longrightarrow>
    nat (capacity b - pointer b) = k \<Longrightarrow>
    \<exists>b' w'. init_loop env_reset act_step it s w b = Some (Inr (b', w')) \<and>
       pointer b' = 0 \<and> buffer_ok b' \<and> capacity b' = capacity b \<and>
       (\<forall>cnt. (\<forall>w s. cnt (snd (act_step w s)) = Suc (cnt w)) \<and>
              (\<forall>w. cnt (snd (env_reset w)) = cnt w) \<longrightarrow> cnt w' = cnt w + k)"
proof (induction k arbitrary: it s w b rule: less_induct)
  case (less k)
  note ok = \<open>buffer_ok b\<close> and nc = \<open>ncols (state b) = d\<close> and k = \<open>nat (capacity b - pointer b) = k\<close>
  have body: "\<exists>b' w'. init_loop env_reset act_step it s w b = Some (Inr (b', w')) \<and>
       pointer b' = 0 \<and> buffer_ok b' \<and> capacity b' = capacity b \<and>
       (\<forall>cnt. (\<forall>w s. cnt (snd (act_step w s)) = Suc (cnt w)) \<and>
              (\<forall>w. cnt (snd (env_reset w)) = cnt w) \<longrightarrow> cnt w' = cnt w + k)"
    if it: "it < EP_MAXLEN" and s: "length s = d" for it s w
  proof -
    obtain sn r dn w1 where a: "act_step w s = ((sn, r, dn), w1)"
      by (metis prod_cases3 surj_pair)
    from st have sn: "length sn = d"
      by (metis a fst_conv)
    define b1 where "b1 = b\<lparr>state := (state b)\<lparr>rws := (rws (state b))[nat (pointer b) := s]\<rparr>,
                  reward := (reward b)\<lparr>rws := (rws (reward b))[nat (pointer b) := [(r + 8) / 8]]\<rparr>,
                  s_next := (s_next b)\<lparr>rws := (rws (s_next b))[nat (pointer b) := sn]\<rparr>,
                  pointer := (pointer b + 1) mod capacity b\<rparr>"
    have stt: "store_transition b s ((r + 8) / 8) sn = Inr b1"
      unfolding b1_def using ok s sn nc by (intro store_transition_Inr) simp_all
    have ok1: "buffer_ok b1" and cap1: "capacity b1 = capacity b"
      and nc1: "ncols (state b1) = d"
      using store_transition_ok[OF ok stt] nc by simp_all
    have p1: "pointer b1 = (pointer b + 1) mod capacity b"
      by (simp add: b1_def)
    from ok have rng: "0 \<le> pointer b" "pointer b < capacity b"
      by (simp_all add: buffer_ok_def)
    have w1: "snd (act_step w s) = w1" by (simp add: a)
    show ?thesis
    proof (cases "pointer b1 = 0")
      case True
      with p1 rng have "pointer b + 1 = capacity b"
        by (metis add.commute add_cancel_right_left mod_pos_pos_trivial not_less
            zless_add1_eq less_le zero_neq_one add_nonneg_nonneg zero_le_one)
      with k have k1: "k = 1" by simp
      have "init_loop env_reset act_step it s w b = Some (Inr (b1, w1))"
        by (subst init_loop.simps) (simp add: it a stt True)
      with True ok1 cap1 k1 w1 show ?thesis by auto
    next
      case False
      with p1 rng have p1': "pointer b1 = pointer b + 1" and lt: "pointer b + 1 < capacity b"
        by (metis mod_pos_pos_trivial mod_self add_nonneg_nonneg zero_le_one less_le
            zless_add1_eq not_less)+
      define k1 where "k1 = nat (capacity b1 - pointer b1)"
      from k p1' cap1 lt have kk: "k1 < k" "k = Suc k1"
        by (simp_all add: k1_def)
      show ?thesis
      proof (cases dn)
        case True
        obtain s0 w2 where r: "env_reset w1 = (s0, w2)" by (cases "env_reset w1")
        with rs have s0: "length s0 = d" by (metis fst_conv)
        from less.IH[OF kk(1) ok1 nc1 s0 k1_def[symmetric], of 0 w2]
        obtain b' w' where res: "init_loop env_reset act_step 0 s0 w2 b1 = Some (Inr (b', w'))"
          "pointer b' = 0" "buffer_ok b'" "capacity b' = capacity b1"
          and c: "\<forall>cnt. (\<forall>w s. cnt (snd (act_step w s)) = Suc (cnt w)) \<and>
              (\<forall>w. cnt (snd (env_reset w)) = cnt w) \<longrightarrow> cnt w' = cnt w2 + k1"
          by blast
        have "init_loop env_reset act_step it s w b = Some (Inr (b', w'))"
          by (subst init_loop.simps) (simp add: it a stt False True r res)
        moreover have "snd (env_reset w1) = w2" by (simp add: r)
        ultimately show ?thesis
          using res c cap1 kk(2) w1 by (metis add_Suc_shift)
      next
        case nd: False
        from less.IH[OF kk(1) ok1 nc1 s k1_def[symmetric], of "it + 1" w1]
        obtain b' w' where res: "init_loop env_reset act_step (it + 1) s w1 b1 = Some (Inr (b', w'))"
          "pointer b' = 0" "buffer_ok b'" "capacity b' = capacity b1"
          and c: "\<forall>cnt. (\<forall>w s. cnt (snd (act_step w s)) = Suc (cnt w)) \<and>
              (\<forall>w. cnt (snd (env_reset w)) = cnt w) \<longrightarrow> cnt w' = cnt w1 + k1"
          by blast
        have "init_loop env_reset act_step it s w b = Some (Inr (b', w'))"
          by (subst init_loop.simps) (simp add: it a stt False nd res[simplified])
        then show ?thesis
          using res c cap1 kk(2) w1 by (metis add_Suc_shift)
      qed
    qed
  qed
  show ?case
  proof (cases "it < EP_MAXLEN")
    case True
    then show ?thesis using body less.prems(3) by blast
  next
    case False
    obtain s0 w1 where r: "env_reset w = (s0, w1)" by (cases "env_reset w")
    with rs have s0: "length s0 = d" by (metis fst_conv)
    have z: "0 < EP_MAXLEN" by (simp add: EP_MAXLEN_def)
    from body[OF z s0, of w1]
    obtain b' w' where res: "init_loop env_reset act_step 0 s0 w1 b = Some (Inr (b', w'))"
          "pointer b' = 0" "buffer_ok b'" "capacity b' = capacity b"
          and c: "\<forall>cnt. (\<forall>w s. cnt (snd (act_step w s)) = Suc (cnt w)) \<and>
              (\<forall>w. cnt (snd (env_reset w)) = cnt w) \<longrightarrow> cnt w' = cnt w1 + k"
      by blast
    have "init_loop env_reset act_step it s w b = Some (Inr (b', w'))"
      by (subst init_loop.simps) (simp add: False r res)
    moreover have "snd (env_reset w) = w1" by (simp add: r)
    ultimately show ?thesis using res c by metis
  qed
qed

lemma most_recent_writer_lap:
  assumes "i < C"
  shows "most_recent_writer C C i = Some i"
proof -
  from most_recent_writer_full[OF assms, of C] obtain j where j: "most_recent_writer C C i = Some j"
    by auto
  from most_recent_writer_Some[OF j] have "j < C" "j mod C = i" by simp_all
  then have "j = i" by simp
  with j show ?thesis by simp
qed

lemma init_loop_rollout:
  assumes rs: "\<forall>w. length (fst (env_reset w)) = d"
    and st: "\<forall>w s. length (fst (fst (act_step w s))) = d"
  shows "buffer_ok b \<Longrightarrow> ncols (state b) = d \<Longrightarrow> length s = d \<Longrightarrow> it < EP_MAXLEN \<Longrightarrow>
    nat (capacity b - pointer b) = k \<Longrightarrow>
    \<exists>b'. init_loop env_reset act_step it s w b =
            Some (Inr (b', snd (rollout env_reset act_step k it s w))) \<and>
         store_all b (fst (rollout env_reset act_step k it s w)) = Inr b' \<and>
         length (fst (rollout env_reset act_step k it s w)) = k \<and>
         (\<forall>t \<in> set (fst (rollout env_reset act_step k it s w)).
             length (fst t) = d \<and> length (snd (snd t)) = d) \<and>
         pointer b' = 0"
proof (induction k arbitrary: it s w b)
  case 0
  then have "pointer b < capacity b" by (simp add: buffer_ok_def)
  with 0 show ?case by simp
next
  case (Suc k)
  note ok = \<open>buffer_ok b\<close> and nc = \<open>ncols (state b) = d\<close> and s = \<open>length s = d\<close>
    and it = \<open>it < EP_MAXLEN\<close> and k = \<open>nat (capacity b - pointer b) = Suc k\<close>
  obtain sn r dn w1 where a: "act_step w s = ((sn, r, dn), w1)"
    by (metis prod_cases3 surj_pair)
  from st have sn: "length sn = d" by (metis a fst_conv)
  let ?t = "(s, (r + 8) / 8, sn)"
  define b1 where "b1 = b\<lparr>state := (state b)\<lparr>rws := (rws (state b))[nat (pointer b) := s]\<rparr>,
                  reward := (reward b)\<lparr>rws := (rws (reward b))[nat (pointer b) := [(r + 8) / 8]]\<rparr>,
                  s_next := (s_next b)\<lparr>rws := (rws (s_next b))[nat (pointer b) := sn]\<rparr>,
                  pointer := (pointer b + 1) mod capacity b\<rparr>"
  have stt: "store_transition b s ((r + 8) / 8) sn = Inr b1"
    unfolding b1_def using ok s sn nc by (intro store_transition_Inr) simp_all
  have ok1: "buffer_ok b1" and cap1: "capacity b1 = capacity b"
    and nc1: "ncols (state b1) = d"
    using store_transition_ok[OF ok stt] nc by simp_all
  have p1: "pointer b1 = (pointer b + 1) mod capacity b" by (simp add: b1_def)
  from ok have rng: "0 \<le> pointer b" "pointer b < capacity b"
    by (simp_all add: buffer_ok_def)
  show ?case
  proof (cases "k = 0")
    case True
    with k rng have "pointer b + 1 = capacity b" by linarith
    with p1 have z: "pointer b1 = 0" by simp
    have "init_loop env_reset act_step it s w b = Some (Inr (b1, w1))"
      by (subst init_loop.simps) (simp add: it a stt z)
    with True z s sn stt show ?thesis
      by (simp add: a bind_err_def)
  next
    case False
    with k rng have lt: "pointer b + 1 < capacity b" by linarith
    with rng p1 have p1': "pointer b1 = pointer b + 1" by simp
    then have nz: "pointer b1 \<noteq> 0" using rng by simp
    have k1: "nat (capacity b1 - pointer b1) = k" using k p1' cap1 by simp
    have step: "\<exists>b'. init_loop env_reset act_step it s w b =
            Some (Inr (b', snd (rollout env_reset act_step (Suc k) it s w))) \<and>
         store_all b (fst (rollout env_reset act_step (Suc k) it s w)) = Inr b' \<and>
         length (fst (rollout env_reset act_step (Suc k) it s w)) = Suc k \<and>
         (\<forall>t \<in> set (fst (rollout env_reset act_step (Suc k) it s w)).
             length (fst t) = d \<and> length (snd (snd t)) = d) \<and>
         pointer b' = 0"
      if il: "init_loop env_reset act_step it s w b = init_loop env_reset act_step it' s' w' b1"
        and ro: "rollout env_reset act_step (Suc k) it s w =
           (?t # fst (rollout env_reset act_step k it' s' w'),
            snd (rollout env_reset act_step k it' s' w'))"
        and s': "length s' = d" and it': "it' < EP_MAXLEN" for it' s' w'
    proof -
      from Suc.IH[OF ok1 nc1 s' it' k1, of w']
      obtain b' where r: "init_loop env_reset act_step it' s' w' b1 =
            Some (Inr (b', snd (rollout env_reset act_step k it' s' w')))"
         "store_all b1 (fst (rollout env_reset act_step k it' s' w')) = Inr b'"
         "length (fst (rollout env_reset act_step k it' s' w')) = k"
         "\<forall>t \<in> set (fst (rollout env_reset act_step k it' s' w')).
             length (fst t) = d \<and> length (snd (snd t)) = d"
         "pointer b' = 0"
        by blast
      with il ro s sn stt show ?thesis
        by (simp add: bind_err_def)
    qed
    show ?thesis
    proof (cases "dn \<or> EP_MAXLEN \<le> it + 1")
      case True
      obtain s0 w2 where r: "env_reset w1 = (s0, w2)" by (cases "env_reset w1")
      with rs have s0: "length s0 = d" by (metis fst_conv)
      have z: "0 < EP_MAXLEN" by (simp add: EP_MAXLEN_def)
      have il: "init_loop env_reset act_step it s w b = init_loop env_reset act_step 0 s0 w2 b1"
      proof (cases dn)
        case True
        then show ?thesis
          by (subst init_loop.simps) (simp add: it a stt nz r)
      next
        case nd: False
        with True have e: "\<not> Suc it < EP_MAXLEN" by simp
        have "init_loop env_reset act_step it s w b = init_loop env_reset act_step (it + 1) s w1 b1"
          by (subst init_loop.simps) (simp add: it a stt nz nd)
        also have "\<dots> = init_loop env_reset act_step 0 s0 w2 b1"
          by (subst init_loop.simps) (simp add: e r)
        finally show ?thesis .
      qed
      have ro: "rollout env_reset act_step (Suc k) it s w =
           (?t # fst (rollout env_reset act_step k 0 s0 w2),
            snd (rollout env_reset act_step k 0 s0 w2))"
        using True False by (simp add: a r split: prod.splits)
      from step[OF il ro s0 z] show ?thesis .
    next
      case nb: False
      then have it1: "it + 1 < EP_MAXLEN" and nd: "\<not> dn" by simp_all
      have il: "init_loop env_reset act_step it s w b = init_loop env_reset act_step (it + 1) s w1 b1"
        by (subst init_loop.simps) (simp add: it a stt nz nd)
      have ro: "rollout env_reset act_step (Suc k) it s w =
           (?t # fst (rollout env_reset act_step k (it + 1) s w1),
            snd (rollout env_reset act_step k (it + 1) s w1))"
        using nb False by (simp add: a split: prod.splits)
      from step[OF il ro s it1] show ?thesis .
    qed
  qed
qed


lemma init_buffer_empty:
  assumes "MemoryBuffer_init 0 d = Inr b"
  shows "init_buffer env_reset act_step w b = Some (Inl IndexError)"
proof -
  from assms have d: "0 \<le> d"
    by (auto simp: MemoryBuffer_init_def np_zeros_def bind_err_def split: if_splits)
  with assms have b: "b = \<lparr>capacity = 0, state = \<lparr>ncols = nat d, rws = []\<rparr>,
      reward = \<lparr>ncols = 1, rws = []\<rparr>, s_next = \<lparr>ncols = nat d, rws = []\<rparr>, pointer = 0\<rparr>"
    by (simp add: MemoryBuffer_init_Inr)
  have st: "store_transition b s r sn = Inl IndexError" for s r sn
    by (simp add: b store_transition_def assign_state_def set_row_def np_index_def bind_err_def)
  obtain s0 w1 where r: "env_reset w = (s0, w1)" by (cases "env_reset w")
  obtain sn r' dn w2 where a: "act_step w1 s0 = ((sn, r', dn), w2)"
    by (metis prod_cases3 surj_pair)
  have "init_loop env_reset act_step 0 s0 w1 b = Some (Inl IndexError)"
    by (subst init_loop.simps) (simp add: EP_MAXLEN_def a st)
  then show ?thesis by (simp add: init_buffer_def r)
qed

text \<open>
  C4 (prefill). Read as the specification words it, the prefill would end at an episode
  boundary. In the environment \<open>short_step\<close> the first step reports \<open>done\<close>; with a
  fresh store of capacity 2 the code goes on through \<^verbatim>\<open>env.reset()\<close> and returns after
  the second store with the pointer at 0, where the specification's reading has returned
  after the first store with the pointer at 1.
\<close>

theorem prefill_episode_boundary_counterexample:
  "snd (snd (fst (short_step 0 [2]))) = True \<and>
   init_buffer short_reset short_step 0
     \<lparr>capacity = 2, state = \<lparr>ncols = 1, rws = [[0], [0]]\<rparr>,
      reward = \<lparr>ncols = 1, rws = [[0], [0]]\<rparr>,
      s_next = \<lparr>ncols = 1, rws = [[0], [0]]\<rparr>, pointer = 0\<rparr> =
     Some (Inr (\<lparr>capacity = 2, state = \<lparr>ncols = 1, rws = [[2], [2]]\<rparr>,
                  reward = \<lparr>ncols = 1, rws = [[1], [1]]\<rparr>,
                  s_next = \<lparr>ncols = 1, rws = [[1], [1]]\<rparr>, pointer = 0\<rparr>, 2)) \<and>
   prefill_spec short_reset short_step 0
     \<lparr>capacity = 2, state = \<lparr>ncols = 1, rws = [[0], [0]]\<rparr>,
      reward = \<lparr>ncols = 1, rws = [[0], [0]]\<rparr>,
      s_next = \<lparr>ncols = 1, rws = [[0], [0]]\<rparr>, pointer = 0\<rparr> =
     Inr (\<lparr>capacity = 2, state = \<lparr>ncols = 1, rws = [[2], [0]]\<rparr>,
            reward = \<lparr>ncols = 1, rws = [[1], [0]]\<rparr>,
            s_next = \<lparr>ncols = 1, rws = [[1], [0]]\<rparr>, pointer = 1\<rparr>, 1)"
proof -
  let ?b0 = "\<lparr>capacity = 2, state = \<lparr>ncols = 1, rws = [[0], [0]]\<rparr>,
      reward = \<lparr>ncols = 1, rws = [[0], [0]]\<rparr>,
      s_next = \<lparr>ncols = 1, rws = [[0], [0]]\<rparr>, pointer = 0\<rparr>"
  let ?b1 = "\<lparr>capacity = 2, state = \<lparr>ncols = 1, rws = [[2], [0]]\<rparr>,
            reward = \<lparr>ncols = 1, rws = [[1], [0]]\<rparr>,
            s_next = \<lparr>ncols = 1, rws = [[1], [0]]\<rparr>, pointer = 1\<rparr>"
  let ?b2 = "\<lparr>capacity = 2, state = \<lparr>ncols = 1, rws = [[2], [2]]\<rparr>,
                  reward = \<lparr>ncols = 1, rws = [[1], [1]]\<rparr>,
                  s_next = \<lparr>ncols = 1, rws = [[1], [1]]\<rparr>, pointer = 0\<rparr>"
  have e: "EP_MAXLEN = Suc 199" by (simp add: EP_MAXLEN_def)
  have s1: "store_transition ?b0 [2] 1 [1] = Inr ?b1"
    by (simp add: store_transition_def assign_state_def assign_reward_def assign_s_next_def
        advance_pointer_def set_row_def np_index_def broadcast_to_def bind_err_def)
  have s2: "store_transition ?b1 [2] 1 [1] = Inr ?b2"
    by (simp add: store_transition_def assign_state_def assign_reward_def assign_s_next_def
        advance_pointer_def set_row_def np_index_def broadcast_to_def bind_err_def)
  have l2: "init_loop short_reset short_step 0 [2] (Suc 0) ?b1 = Some (Inr (?b2, Suc (Suc 0)))"
    by (subst init_loop.simps) (simp add: EP_MAXLEN_def short_step_def s2 del: One_nat_def)
  have l1: "init_loop short_reset short_step 0 [2] 0 ?b0 = Some (Inr (?b2, Suc (Suc 0)))"
    by (subst init_loop.simps) (simp add: EP_MAXLEN_def short_step_def short_reset_def s1 l2 del: One_nat_def)
  have "init_buffer short_reset short_step 0 ?b0 = Some (Inr (?b2, 2))"
    by (simp add: init_buffer_def short_reset_def l1 numeral_2_eq_2 del: One_nat_def)
  moreover have "prefill_spec short_reset short_step 0 ?b0 = Inr (?b1, 1)"
    unfolding prefill_spec_def short_reset_def e
    by (subst prefill_spec_loop.simps(2)) (simp add: short_step_def s1 del: One_nat_def)
  moreover have "snd (snd (fst (short_step 0 [2]))) = True"
    by (simp add: short_step_def)
  ultimately show ?thesis by blast
qed

text \<open>
  C4, as the code has it. On a fresh store of capacity \<open>C > 0\<close> (pointer 0), with an
  environment whose states have the store's dimension, \<^verbatim>\<open>init_buffer\<close> returns. The store
  it returns is the fresh one after the calls of \<^verbatim>\<open>store_transition\<close> on the transitions
  of \<open>prefill_transitions\<close>, in order: exactly \<open>C\<close> of them, one for each environment step,
  each \<open>(s, (r + 8) / 8, s_next)\<close>, with \<^verbatim>\<open>env.reset()\<close> after every step that ends an
  episode but the last. Row \<open>i\<close> of the three arrays holds transition \<open>i\<close>, the pointer is
  back at 0, and the world is the one these steps and resets leave: whatever counts the
  steps in it has advanced by \<open>C\<close>. The \<open>done\<close> flags and the episode length play no
  part in when it returns. In the environment \<open>tally_step\<close>, with capacity 3: step 0 ends
  the first episode, the reset that follows gives the state \<open>[1]\<close>, steps 1 and 2 both act
  on it, and the prefill returns after step 2 with three rows written, three steps and two
  resets made.
\<close>

theorem prefill_returns_at_wrap:
  "0 < C \<and> 0 \<le> d \<and> MemoryBuffer_init C d = Inr b0 \<and>
   (\<forall>w. length (fst (env_reset w)) = nat d) \<and>
   (\<forall>w s. length (fst (fst (act_step w s))) = nat d) \<longrightarrow>
   pointer b0 = 0 \<and>
   (\<exists>b ts w'. init_buffer env_reset act_step w b0 = Some (Inr (b, w')) \<and>
      prefill_transitions env_reset act_step (nat C) w = (ts, w') \<and>
      length ts = nat C \<and>
      store_all b0 ts = Inr b \<and>
      buffer_ok b \<and> capacity b = C \<and> pointer b = 0 \<and>
      (\<forall>i < nat C.
         rws (state b) ! i = fst (ts ! i) \<and>
         rws (reward b) ! i = [fst (snd (ts ! i))] \<and>
         rws (s_next b) ! i = snd (snd (ts ! i))) \<and>
      (\<forall>cnt. (\<forall>w s. cnt (snd (act_step w s)) = Suc (cnt w)) \<and>
             (\<forall>w. cnt (snd (env_reset w)) = cnt w) \<longrightarrow> cnt w' = cnt w + nat C))"
proof
  assume a: "0 < C \<and> 0 \<le> d \<and> MemoryBuffer_init C d = Inr b0 \<and>
   (\<forall>w. length (fst (env_reset w)) = nat d) \<and>
   (\<forall>w s. length (fst (fst (act_step w s))) = nat d)"
  then have rs: "\<forall>w. length (fst (env_reset w)) = nat d"
    and st: "\<forall>w s. length (fst (fst (act_step w s))) = nat d"
    and C: "0 < C" and d: "0 \<le> d" and init: "MemoryBuffer_init C d = Inr b0" by blast+
  from a have ok: "buffer_ok b0" and cap: "capacity b0 = C" and p: "pointer b0 = 0"
    and nc: "ncols (state b0) = nat d"
    by (blast intro: MemoryBuffer_init_ok)+
  obtain s0 w1 where r: "env_reset w = (s0, w1)" by (cases "env_reset w")
  with rs have s0: "length s0 = nat d" by (metis fst_conv)
  have k: "nat (capacity b0 - pointer b0) = nat C" by (simp add: cap p)
  have z: "0 < EP_MAXLEN" by (simp add: EP_MAXLEN_def)
  define ts where "ts = fst (rollout env_reset act_step (nat C) 0 s0 w1)"
  define w' where "w' = snd (rollout env_reset act_step (nat C) 0 s0 w1)"
  have pt: "prefill_transitions env_reset act_step (nat C) w = (ts, w')"
    by (simp add: prefill_transitions_def r ts_def w'_def)
  from init_loop_rollout[OF rs st ok nc s0 z k, of w1]
  obtain b where res: "init_loop env_reset act_step 0 s0 w1 b0 = Some (Inr (b, w'))"
      and sa: "store_all b0 ts = Inr b" and len: "length ts = nat C"
      and dims: "\<forall>t \<in> set ts. length (fst t) = nat d \<and> length (snd (snd t)) = nat d"
      and pb: "pointer b = 0"
    unfolding ts_def w'_def by blast
  have ib: "init_buffer env_reset act_step w b0 = Some (Inr (b, w'))"
    by (simp add: init_buffer_def r res)
  from store_all_fresh[OF C d init dims] sa
  have okb: "buffer_ok b" and capb: "capacity b = C"
    and rows: "\<forall>i < nat C.
            rws (state b) ! i =
              (case most_recent_writer (nat C) (length ts) i of
                 None \<Rightarrow> replicate (nat d) 0 | Some j \<Rightarrow> fst (ts ! j)) \<and>
            rws (reward b) ! i =
              (case most_recent_writer (nat C) (length ts) i of
                 None \<Rightarrow> [0] | Some j \<Rightarrow> [fst (snd (ts ! j))]) \<and>
            rws (s_next b) ! i =
              (case most_recent_writer (nat C) (length ts) i of
                 None \<Rightarrow> replicate (nat d) 0 | Some j \<Rightarrow> snd (snd (ts ! j)))"
    by auto
  have rows': "\<forall>i < nat C.
         rws (state b) ! i = fst (ts ! i) \<and>
         rws (reward b) ! i = [fst (snd (ts ! i))] \<and>
         rws (s_next b) ! i = snd (snd (ts ! i))"
  proof (intro allI impI)
    fix i assume i: "i < nat C"
    from rows i show "rws (state b) ! i = fst (ts ! i) \<and>
         rws (reward b) ! i = [fst (snd (ts ! i))] \<and>
         rws (s_next b) ! i = snd (snd (ts ! i))"
      by (simp add: len most_recent_writer_lap)
  qed
  from init_loop_returns[OF rs st ok nc s0 k, of 0 w1] res
  have c0: "\<forall>cnt. (\<forall>w s. cnt (snd (act_step w s)) = Suc (cnt w)) \<and>
              (\<forall>w. cnt (snd (env_reset w)) = cnt w) \<longrightarrow> cnt w' = cnt w1 + nat C"
    by auto
  have "snd (env_reset w) = w1" by (simp add: r)
  with c0 have c: "\<forall>cnt. (\<forall>w s. cnt (snd (act_step w s)) = Suc (cnt w)) \<and>
             (\<forall>w. cnt (snd (env_reset w)) = cnt w) \<longrightarrow> cnt w' = cnt w + nat C"
    by metis
  have "init_buffer env_reset act_step w b0 = Some (Inr (b, w')) \<and>
      prefill_transitions env_reset act_step (nat C) w = (ts, w') \<and>
      length ts = nat C \<and>
      store_all b0 ts = Inr b \<and>
      buffer_ok b \<and> capacity b = C \<and> pointer b = 0 \<and>
      (\<forall>i < nat C.
         rws (state b) ! i = fst (ts ! i) \<and>
         rws (reward b) ! i = [fst (snd (ts ! i))] \<and>
         rws (s_next b) ! i = snd (snd (ts ! i))) \<and>
      (\<forall>cnt. (\<forall>w s. cnt (snd (act_step w s)) = Suc (cnt w)) \<and>
             (\<forall>w. cnt (snd (env_reset w)) = cnt w) \<longrightarrow> cnt w' = cnt w + nat C)"
    using ib pt len sa okb capb pb rows' c by (intro conjI)
  then have "\<exists>b ts w'. init_buffer env_reset act_step w b0 = Some (Inr (b, w')) \<and>
      prefill_transitions env_reset act_step (nat C) w = (ts, w') \<and>
      length ts = nat C \<and>
      store_all b0 ts = Inr b \<and>
      buffer_ok b \<and> capacity b = C \<and> pointer b = 0 \<and>
      (\<forall>i < nat C.
         rws (state b) ! i = fst (ts ! i) \<and>
         rws (reward b) ! i = [fst (snd (ts ! i))] \<and>
         rws (s_next b) ! i = snd (snd (ts ! i))) \<and>
      (\<forall>cnt. (\<forall>w s. cnt (snd (act_step w s)) = Suc (cnt w)) \<and>
             (\<forall>w. cnt (snd (env_reset w)) = cnt w) \<longrightarrow> cnt w' = cnt w + nat C)"
    by blast
  with p show "pointer b0 = 0 \<and>
   (\<exists>b ts w'. init_buffer env_reset act_step w b0 = Some (Inr (b, w')) \<and>
      prefill_transitions env_reset act_step (nat C) w = (ts, w') \<and>
      length ts = nat C \<and>
      store_all b0 ts = Inr b \<and>
      buffer_ok b \<and> capacity b = C \<and> pointer b = 0 \<and>
      (\<forall>i < nat C.
         rws (state b) ! i = fst (ts ! i) \<and>
         rws (reward b) ! i = [fst (snd (ts ! i))] \<and>
         rws (s_next b) ! i = snd (snd (ts ! i))) \<and>
      (\<forall>cnt. (\<forall>w s. cnt (snd (act_step w s)) = Suc (cnt w)) \<and>
             (\<forall>w. cnt (snd (env_reset w)) = cnt w) \<longrightarrow> cnt w' = cnt w + nat C))"
    by (rule conjI)
qed

theorem prefill_returns_at_wrap_witness:
  "prefill_transitions tally_reset tally_step 3 (0, 0) =
     ([([0], 1, [10]), ([1], 2, [11]), ([1], 3, [12])], (3, 2)) \<and>
   init_buffer tally_reset tally_step (0, 0)
     \<lparr>capacity = 3, state = \<lparr>ncols = 1, rws = [[0], [0], [0]]\<rparr>,
      reward = \<lparr>ncols = 1, rws = [[0], [0], [0]]\<rparr>,
      s_next = \<lparr>ncols = 1, rws = [[0], [0], [0]]\<rparr>, pointer = 0\<rparr> =
     Some (Inr (\<lparr>capacity = 3, state = \<lparr>ncols = 1, rws = [[0], [1], [1]]\<rparr>,
                  reward = \<lparr>ncols = 1, rws = [[1], [2], [3]]\<rparr>,
                  s_next = \<lparr>ncols = 1, rws = [[10], [11], [12]]\<rparr>, pointer = 0\<rparr>, (3, 2)))"
proof -
  let ?b0 = "\<lparr>capacity = 3, state = \<lparr>ncols = 1, rws = [[0], [0], [0]]\<rparr>,
      reward = \<lparr>ncols = 1, rws = [[0], [0], [0]]\<rparr>,
      s_next = \<lparr>ncols = 1, rws = [[0], [0], [0]]\<rparr>, pointer = 0\<rparr>"
  let ?ts = "[([0], 1, [10]), ([1], 2, [11]), ([1], 3, [12::real])] :: transition list"
  have hyp: "(0::int) < 3 \<and> (0::int) \<le> 1 \<and> MemoryBuffer_init 3 1 = Inr ?b0 \<and>
     (\<forall>w. length (fst (tally_reset w)) = nat 1) \<and>
     (\<forall>w s. length (fst (fst (tally_step w s))) = nat 1)"
    by (simp add: MemoryBuffer_init_Inr tally_reset_def tally_step_def numeral_eq_Suc)
  have n3: "nat 3 = Suc (Suc (Suc 0))" by simp
  have pt: "prefill_transitions tally_reset tally_step (nat 3) (0, 0) = (?ts, (3, 2))"
    unfolding n3
    by (simp add: prefill_transitions_def tally_reset_def tally_step_def EP_MAXLEN_def
        numeral_2_eq_2 numeral_3_eq_3)
  have sa: "store_all ?b0 ?ts =
     Inr \<lparr>capacity = 3, state = \<lparr>ncols = 1, rws = [[0], [1], [1]]\<rparr>,
                  reward = \<lparr>ncols = 1, rws = [[1], [2], [3]]\<rparr>,
                  s_next = \<lparr>ncols = 1, rws = [[10], [11], [12]]\<rparr>, pointer = 0\<rparr>"
    by (simp add: store_transition_def assign_state_def assign_reward_def assign_s_next_def
        advance_pointer_def set_row_def np_index_def broadcast_to_def bind_err_def)
  from prefill_returns_at_wrap [of 3 1 ?b0 tally_reset tally_step "(0, 0)"] hyp
  obtain b ts w' where res: "init_buffer tally_reset tally_step (0, 0) ?b0 = Some (Inr (b, w'))"
      and p: "prefill_transitions tally_reset tally_step (nat 3) (0, 0) = (ts, w')"
      and s: "store_all ?b0 ts = Inr b"
    by blast
  from p pt have "ts = ?ts" "w' = (3, 2)" by simp_all
  with s sa res pt show ?thesis by simp
qed

text \<open>
  C8 (configuration errors). The constructor has no check of its own. With capacity 0 it
  returns an empty store, and a store of dimension 3 is built without complaint and
  refuses a state vector of two entries only in \<^verbatim>\<open>store_transition\<close>.
\<close>

theorem construction_validation_counterexample:
  "MemoryBuffer_init 0 3 =
     Inr \<lparr>capacity = 0, state = \<lparr>ncols = 3, rws = []\<rparr>, reward = \<lparr>ncols = 1, rws = []\<rparr>,
          s_next = \<lparr>ncols = 3, rws = []\<rparr>, pointer = 0\<rparr> \<and>
   MemoryBuffer_init 1 3 =
     Inr \<lparr>capacity = 1, state = \<lparr>ncols = 3, rws = [[0, 0, 0]]\<rparr>,
          reward = \<lparr>ncols = 1, rws = [[0]]\<rparr>,
          s_next = \<lparr>ncols = 3, rws = [[0, 0, 0]]\<rparr>, pointer = 0\<rparr> \<and>
   store_transition
     \<lparr>capacity = 1, state = \<lparr>ncols = 3, rws = [[0, 0, 0]]\<rparr>,
          reward = \<lparr>ncols = 1, rws = [[0]]\<rparr>,
          s_next = \<lparr>ncols = 3, rws = [[0, 0, 0]]\<rparr>, pointer = 0\<rparr> [1, 2] 0 [1, 2]
     = Inl ValueError"
  by (simp add: MemoryBuffer_init_def np_zeros_def store_transition_def assign_state_def
      set_row_def np_index_def broadcast_to_def bind_err_def numeral_eq_Suc)

text \<open>
  C8, as the code has it. A negative capacity or dimension fails in the constructor, with
  the ValueError of \<^verbatim>\<open>np.zeros\<close>. Any other pair constructs a store, capacity 0
  included; on that empty store \<^verbatim>\<open>store_transition\<close> raises IndexError and
  \<^verbatim>\<open>sample\<close> raises ValueError for every size but 0 (for which it returns three
  arrays without rows), and so the prefill of the main program, which runs before the
  threads are started, ends with IndexError. A state or next-state vector whose length is
  neither the store's dimension nor 1 is refused by \<^verbatim>\<open>store_transition\<close>, with
  ValueError.
\<close>

theorem construction_validation:
  "(cap < 0 \<or> d < 0 \<longrightarrow> MemoryBuffer_init cap d = Inl ValueError) \<and>
   (0 \<le> cap \<and> 0 \<le> d \<longrightarrow> (\<exists>b. MemoryBuffer_init cap d = Inr b)) \<and>
   (MemoryBuffer_init 0 d = Inr b \<longrightarrow>
      store_transition b s r sn = Inl IndexError \<and>
      (n \<noteq> 0 \<longrightarrow> sample b n raw = Inl ValueError) \<and>
      sample b 0 raw =
        Inr ((\<lparr>ncols = nat d, rws = []\<rparr>, \<lparr>ncols = 1, rws = []\<rparr>, \<lparr>ncols = nat d, rws = []\<rparr>), b) \<and>
      init_buffer env_reset act_step w b = Some (Inl IndexError)) \<and>
   (0 < cap \<and> MemoryBuffer_init cap d = Inr b \<and>
    (length s \<noteq> nat d \<and> length s \<noteq> 1 \<or>
     length sn \<noteq> nat d \<and> length sn \<noteq> 1) \<longrightarrow>
      store_transition b s r sn = Inl ValueError)"
proof (intro conjI impI)
  assume "cap < 0 \<or> d < 0"
  then show "MemoryBuffer_init cap d = Inl ValueError"
    by (auto simp: MemoryBuffer_init_def np_zeros_def bind_err_def)
next
  assume "0 \<le> cap \<and> 0 \<le> d"
  then show "\<exists>b. MemoryBuffer_init cap d = Inr b"
    by (simp add: MemoryBuffer_init_Inr)
next
  assume a: "MemoryBuffer_init 0 d = Inr b"
  then have d: "0 \<le> d"
    by (auto simp: MemoryBuffer_init_def np_zeros_def bind_err_def split: if_splits)
  with a have b: "b = \<lparr>capacity = 0, state = \<lparr>ncols = nat d, rws = []\<rparr>,
      reward = \<lparr>ncols = 1, rws = []\<rparr>, s_next = \<lparr>ncols = nat d, rws = []\<rparr>, pointer = 0\<rparr>"
    by (simp add: MemoryBuffer_init_Inr)
  show "store_transition b s r sn = Inl IndexError"
    by (simp add: b store_transition_def assign_state_def set_row_def np_index_def bind_err_def)
  show "sample b n raw = Inl ValueError" if "n \<noteq> 0"
    using that by (simp add: b sample_def randint_def bind_err_def)
  show "sample b 0 raw =
        Inr ((\<lparr>ncols = nat d, rws = []\<rparr>, \<lparr>ncols = 1, rws = []\<rparr>, \<lparr>ncols = nat d, rws = []\<rparr>), b)"
    by (simp add: b sample_def randint_def take_rows_def bind_err_def)
  show "init_buffer env_reset act_step w b = Some (Inl IndexError)"
    using a by (rule init_buffer_empty)
next
  assume a: "0 < cap \<and> MemoryBuffer_init cap d = Inr b \<and>
    (length s \<noteq> nat d \<and> length s \<noteq> 1 \<or>
     length sn \<noteq> nat d \<and> length sn \<noteq> 1)"
  then have d: "0 \<le> d"
    by (auto simp: MemoryBuffer_init_def np_zeros_def bind_err_def split: if_splits)
  from a have c: "0 \<le> cap" and i: "MemoryBuffer_init cap d = Inr b" by simp_all
  have b: "b = \<lparr>capacity = cap,
                state = \<lparr>ncols = nat d, rws = replicate (nat cap) (replicate (nat d) 0)\<rparr>,
                reward = \<lparr>ncols = 1, rws = replicate (nat cap) [0]\<rparr>,
                s_next = \<lparr>ncols = nat d, rws = replicate (nat cap) (replicate (nat d) 0)\<rparr>,
                pointer = 0\<rparr>"
    using i by (simp add: MemoryBuffer_init_Inr[OF c d])
  from a show "store_transition b s r sn = Inl ValueError"
    by (auto simp: b store_transition_def assign_state_def assign_reward_def assign_s_next_def
        set_row_def np_index_def broadcast_to_def bind_err_def)
qed

theorem construction_validation_witness:
  "MemoryBuffer_init (- 1) 3 = Inl ValueError \<and>
   (\<exists>b. MemoryBuffer_init 0 3 = Inr b \<and>
        store_transition b [1, 2, 3] 0 [1, 2, 3] = Inl IndexError \<and>
        (1::int) \<noteq> 0 \<and> sample b 1 (\<lambda>k. 0) = Inl ValueError \<and>
        sample b 0 (\<lambda>k. 0) =
          Inr ((\<lparr>ncols = 3, rws = []\<rparr>, \<lparr>ncols = 1, rws = []\<rparr>, \<lparr>ncols = 3, rws = []\<rparr>), b) \<and>
        init_buffer short_reset short_step 0 b = Some (Inl IndexError)) \<and>
   (\<exists>b. MemoryBuffer_init 2 3 = Inr b \<and>
        store_transition b [1, 2] 0 [1, 2, 3] = Inl ValueError \<and>
        store_transition b [1, 2, 3] 0 [1, 2, 3, 4] = Inl ValueError)"
proof -
  have 1: "MemoryBuffer_init (- 1) 3 = Inl ValueError"
    using construction_validation [of "- 1" 3 _ _ _ _ _ _ short_reset short_step 0] by simp
  from construction_validation [of 0 3 _ _ _ _ _ _ short_reset short_step 0]
  obtain b0 where b0: "MemoryBuffer_init 0 3 = Inr b0"
    by fastforce
  have ne: "(1::int) \<noteq> 0" by simp
  from construction_validation [of 0 3 b0 "[1, 2, 3]" 0 "[1, 2, 3]" 1 "\<lambda>k. 0"
      short_reset short_step 0] b0 ne
  have 2: "store_transition b0 [1, 2, 3] 0 [1, 2, 3] = Inl IndexError \<and>
        (1::int) \<noteq> 0 \<and> sample b0 1 (\<lambda>k. 0) = Inl ValueError \<and>
        sample b0 0 (\<lambda>k. 0) =
          Inr ((\<lparr>ncols = nat 3, rws = []\<rparr>, \<lparr>ncols = 1, rws = []\<rparr>, \<lparr>ncols = nat 3, rws = []\<rparr>), b0) \<and>
        init_buffer short_reset short_step 0 b0 = Some (Inl IndexError)"
    by blast
  have n3: "nat 3 = (3::nat)" by simp
  from construction_validation [of 2 3 _ _ _ _ _ _ short_reset short_step 0]
  obtain b2 where b2: "MemoryBuffer_init 2 3 = Inr b2"
    by fastforce
  from construction_validation [of 2 3 b2 "[1, 2]" 0 "[1, 2, 3]" _ _ short_reset short_step 0] b2
  have 3: "store_transition b2 [1, 2] 0 [1, 2, 3] = Inl ValueError"
    by simp
  from construction_validation [of 2 3 b2 "[1, 2, 3]" 0 "[1, 2, 3, 4]" _ _ short_reset short_step 0] b2
  have 4: "store_transition b2 [1, 2, 3] 0 [1, 2, 3, 4] = Inl ValueError"
    by simp
  from 1 2[unfolded n3] 3 4 b0 b2 show ?thesis by blast
qed

lemma counter_train: "counter (train m) = counter m + 1"
  by (simp add: train_def Let_def)

lemma variance_train:
  "variance (train m) = (if decay_fires m then variance m * VAR_DECAY else variance m)"
  by (simp add: train_def decay_fires_def Let_def)

lemma counter_funpow_train: "counter ((train ^^ n) m) = counter m + int n"
  by (induction n) (simp_all add: counter_train)

lemma div_step_200:
  fixes x :: int
  shows "(x + 1) div 200 = x div 200 + (if x mod 200 = 199 then 1 else 0)"
proof -
  define q where "q = x div 200"
  define r where "r = x mod 200"
  have x: "x = 200 * q + r" and r: "0 \<le> r" "r < 200"
    by (simp_all add: q_def r_def)
  show ?thesis
  proof (cases "r = 199")
    case True
    then have "x + 1 = 200 * (q + 1)" using x by simp
    then have "(x + 1) div 200 = q + 1" by simp
    with True show ?thesis by (simp add: q_def r_def)
  next
    case False
    with r have "0 \<le> r + 1" "r + 1 < 200" by simp_all
    then have "(r + 1) div 200 = 0" by (simp add: div_pos_pos_trivial)
    moreover have "x + 1 = (r + 1) + q * 200" using x by simp
    then have "(x + 1) div 200 = (r + 1) div 200 + q"
      by (simp only: div_mult_self1)
    ultimately show ?thesis using False by (simp add: q_def r_def)
  qed
qed


lemma decay_fires_div:
  "int (if decay_fires m then 1 else 0 :: nat) =
     (counter m + 2) div 200 - (counter m + 1) div 200"
proof -
  have "counter m + 1 + 1 = counter m + 2" by simp
  with div_step_200[of "counter m + 1"]
  have "(counter m + 2) div 200 =
      (counter m + 1) div 200 + (if (counter m + 1) mod 200 = 199 then 1 else 0)"
    by (simp only:)
  then show ?thesis
    by (simp add: decay_fires_def WRITE_LOGS_EVERY_def)
qed

lemma decay_events_closed:
  "int (decay_events n m) = (counter m + int n + 1) div 200 - (counter m + 1) div 200"
proof (induction n arbitrary: m)
  case 0
  show ?case by simp
next
  case (Suc n)
  have a: "int (decay_events n (train m)) =
      (counter m + 1 + int n + 1) div 200 - (counter m + 1 + 1) div 200"
    by (simp only: Suc.IH counter_train)
  have b: "counter m + 1 + int n + 1 = counter m + int (Suc n) + 1"
    "counter m + 1 + 1 = counter m + 2"
    by simp_all
  have "int (decay_events (Suc n) m) =
      int (if decay_fires m then 1 else 0 :: nat) + int (decay_events n (train m))"
    by (simp only: decay_events.simps of_nat_add)
  also have "\<dots> = (counter m + int (Suc n) + 1) div 200 - (counter m + 1) div 200"
    unfolding a b decay_fires_div by linarith
  finally show ?case .
qed

lemma variance_funpow_train:
  "variance ((train ^^ n) m) = variance m * VAR_DECAY ^ decay_events n m"
proof (induction n arbitrary: m)
  case 0
  show ?case by simp
next
  case (Suc n)
  have "(train ^^ Suc n) m = (train ^^ n) (train m)" by (simp only: funpow_Suc_right o_apply)
  then show ?case by (simp add: Suc.IH variance_train)
qed

lemma decay_events_period: "decay_events (n + 200) m = decay_events n m + 1"
proof -
  have "(counter m + int (n + 200) + 1) div 200 = (counter m + int n + 1) div 200 + 1"
  proof -
    have "counter m + int (n + 200) + 1 = (counter m + int n + 1) + 1 * 200" by simp
    then show ?thesis by (simp only: div_mult_self1)
  qed
  then have "int (decay_events (n + 200) m) = int (decay_events n m + 1)"
    by (simp only: decay_events_closed of_nat_add)
  then show ?thesis by (simp only: of_nat_eq_iff)
qed

lemma decay_events_mono: "decay_events n m \<le> decay_events (Suc n) m"
proof -
  have "(counter m + int n + 1) div 200 \<le> (counter m + int (Suc n) + 1) div 200"
    by (intro zdiv_mono1) simp_all
  then have "int (decay_events n m) \<le> int (decay_events (Suc n) m)"
    by (simp only: decay_events_closed)
  then show ?thesis by (simp only: of_nat_le_iff)
qed

text \<open>
  C6 (exploration decay). \<open>VAR_DECAY\<close> is a fixed factor in \<open>(0, 1)\<close>. A call of
  \<^verbatim>\<open>train\<close> increments the counter and, when \<open>decay_fires\<close>, multiplies the variance
  by \<open>VAR_DECAY\<close>; otherwise it leaves the variance alone. Any 200 further calls contain
  exactly one decay event, wherever the counter starts. After \<open>n\<close> calls the variance
  is the initial variance times \<open>VAR_DECAY\<close> to the number of decay events among them;
  from the constructor's values (counter 0, variance 3) that is
  \<open>3 \<cdot> VAR_DECAY ^ ((n + 1) div 200)\<close>. A non-negative variance never increases.
  The variance is a real number here; the rounding of Python's floats is not modelled.
\<close>

theorem exploration_decay:
  "0 < VAR_DECAY \<and> VAR_DECAY < 1 \<and>
   train m = (if decay_fires m
              then m\<lparr>counter := counter m + 1, variance := variance m * VAR_DECAY\<rparr>
              else m\<lparr>counter := counter m + 1\<rparr>) \<and>
   decay_events (n + 200) m = decay_events n m + 1 \<and>
   variance ((train ^^ n) m) = variance m * VAR_DECAY ^ decay_events n m \<and>
   variance ((train ^^ n) DDPGModel_init) = 3 * VAR_DECAY ^ ((n + 1) div 200) \<and>
   (0 \<le> variance m \<longrightarrow> variance ((train ^^ Suc n) m) \<le> variance ((train ^^ n) m))"
proof (intro conjI impI)
  show "0 < VAR_DECAY" "VAR_DECAY < 1" by (simp_all add: VAR_DECAY_def)
  show "train m = (if decay_fires m
              then m\<lparr>counter := counter m + 1, variance := variance m * VAR_DECAY\<rparr>
              else m\<lparr>counter := counter m + 1\<rparr>)"
    by (simp add: train_def decay_fires_def Let_def)
  show "decay_events (n + 200) m = decay_events n m + 1"
    by (rule decay_events_period)
  show "variance ((train ^^ n) m) = variance m * VAR_DECAY ^ decay_events n m"
    by (rule variance_funpow_train)
  have "int (decay_events n DDPGModel_init) = int ((n + 1) div 200)"
    by (simp add: decay_events_closed DDPGModel_init_def zdiv_int add.commute)
  then have "decay_events n DDPGModel_init = (n + 1) div 200"
    by (simp only: of_nat_eq_iff)
  then show "variance ((train ^^ n) DDPGModel_init) = 3 * VAR_DECAY ^ ((n + 1) div 200)"
    by (simp add: variance_funpow_train DDPGModel_init_def)
next
  assume v: "0 \<le> variance m"
  have "VAR_DECAY ^ decay_events (Suc n) m \<le> VAR_DECAY ^ decay_events n m"
    by (rule power_decreasing [OF decay_events_mono]) (simp_all add: VAR_DECAY_def)
  then have "variance m * VAR_DECAY ^ decay_events (Suc n) m \<le>
             variance m * VAR_DECAY ^ decay_events n m"
    using v by (rule mult_left_mono)
  then show "variance ((train ^^ Suc n) m) \<le> variance ((train ^^ n) m)"
    by (simp only: variance_funpow_train)
qed

theorem exploration_decay_witness:
  "0 \<le> variance DDPGModel_init \<and>
   variance ((train ^^ 199) DDPGModel_init) = 3 * VAR_DECAY \<and>
   variance ((train ^^ 198) DDPGModel_init) = 3 \<and>
   variance ((train ^^ Suc 198) DDPGModel_init) \<le> variance ((train ^^ 198) DDPGModel_init)"
proof -
  have v: "0 \<le> variance DDPGModel_init" by (simp add: DDPGModel_init_def)
  from exploration_decay [of DDPGModel_init 199]
  have a: "variance ((train ^^ 199) DDPGModel_init) = 3 * VAR_DECAY ^ ((199 + 1) div 200)"
    by blast
  from exploration_decay [of DDPGModel_init 198]
  have b: "variance ((train ^^ 198) DDPGModel_init) = 3 * VAR_DECAY ^ ((198 + 1) div 200)"
    and c: "variance ((train ^^ Suc 198) DDPGModel_init) \<le> variance ((train ^^ 198) DDPGModel_init)"
    using v by blast+
  from a have "variance ((train ^^ 199) DDPGModel_init) = 3 * VAR_DECAY" by simp
  moreover from b have "variance ((train ^^ 198) DDPGModel_init) = 3" by simp
  ultimately show ?thesis using v c by blast
qed

lemma length_target_update:
  "length (target_update target online) = min (length target) (length online)"
  by (simp add: target_update_def)

lemma nth_target_update:
  "i < length target \<Longrightarrow> i < length online \<Longrightarrow>
   target_update target online ! i = (1 - TAU) * target ! i + TAU * online ! i"
  by (simp add: target_update_def)

lemma funpow_target_update:
  "length target = length online \<Longrightarrow> i < length online \<Longrightarrow>
   length (((\<lambda>t. target_update t online) ^^ s) target) = length online \<and>
   ((\<lambda>t. target_update t online) ^^ s) target ! i - online ! i =
     (1 - TAU) ^ s * (target ! i - online ! i)"
proof (induction s)
  case 0
  then show ?case by simp
next
  case (Suc s)
  then have l: "length (((\<lambda>t. target_update t online) ^^ s) target) = length online"
    and g: "((\<lambda>t. target_update t online) ^^ s) target ! i - online ! i =
     (1 - TAU) ^ s * (target ! i - online ! i)"
    by simp_all
  define x where "x = ((\<lambda>t. target_update t online) ^^ s) target"
  have "target_update x online ! i - online ! i = (1 - TAU) * (x ! i - online ! i)"
    using l Suc.prems by (simp add: x_def nth_target_update algebra_simps)
  also have "\<dots> = (1 - TAU) ^ Suc s * (target ! i - online ! i)"
    using g by (simp add: x_def)
  finally show ?case
    using l by (simp add: x_def length_target_update)
qed

text \<open>
  C5 (smoothing convergence). \<open>TAU\<close> is in \<open>(0, 1)\<close>. One update sets every parameter
  \<open>i\<close> of the target to \<open>(1 - TAU) \<cdot> target ! i + TAU \<cdot> online ! i\<close>, which depends on
  no other parameter. With the online parameters fixed, after \<open>s\<close> updates the gap
  between target and online parameter is \<open>(1 - TAU) ^ s\<close> times the initial gap, and
  the target parameter converges to the online parameter as \<open>s\<close> grows. Parameters are
  real numbers here; the rounding of \<^verbatim>\<open>float32\<close> is not modelled.
\<close>

theorem smoothing_convergence:
  "0 < TAU \<and> TAU < 1 \<and>
   (length target = length online \<and> i < length online \<longrightarrow>
      target_update target online ! i = (1 - TAU) * target ! i + TAU * online ! i \<and>
      ((\<lambda>t. target_update t online) ^^ s) target ! i - online ! i =
         (1 - TAU) ^ s * (target ! i - online ! i) \<and>
      (\<lambda>s. ((\<lambda>t. target_update t online) ^^ s) target ! i) \<longlonglongrightarrow> online ! i)"
proof (intro conjI impI)
  show "0 < TAU" "TAU < 1" by (simp_all add: TAU_def)
next
  assume a: "length target = length online \<and> i < length online"
  then show "target_update target online ! i = (1 - TAU) * target ! i + TAU * online ! i"
    by (simp add: nth_target_update)
  from a show "((\<lambda>t. target_update t online) ^^ s) target ! i - online ! i =
         (1 - TAU) ^ s * (target ! i - online ! i)"
    by (simp add: funpow_target_update)
  have eq: "((\<lambda>t. target_update t online) ^^ s) target ! i =
        online ! i + (1 - TAU) ^ s * (target ! i - online ! i)" for s
    using funpow_target_update[of target online i s] a by simp
  have "(\<lambda>s. (1 - TAU) ^ s) \<longlonglongrightarrow> 0"
    by (rule LIMSEQ_realpow_zero) (simp_all add: TAU_def)
  then have "(\<lambda>s. (1 - TAU) ^ s * (target ! i - online ! i)) \<longlonglongrightarrow> 0 * (target ! i - online ! i)"
    by (rule tendsto_mult_right)
  then have "(\<lambda>s. online ! i + (1 - TAU) ^ s * (target ! i - online ! i)) \<longlonglongrightarrow>
               online ! i + 0 * (target ! i - online ! i)"
    by (intro tendsto_add tendsto_const)
  then show "(\<lambda>s. ((\<lambda>t. target_update t online) ^^ s) target ! i) \<longlonglongrightarrow> online ! i"
    by (simp add: eq)
qed

theorem smoothing_convergence_witness:
  "length [0::real, 5] = length [1::real, 5] \<and> (0::nat) < length [1::real, 5] \<and>
   target_update [0, 5] [1, 5] ! 0 = TAU \<and>
   ((\<lambda>t. target_update t [1, 5]) ^^ 2) [0, 5] ! 0 - 1 = - ((1 - TAU) ^ 2) \<and>
   (\<lambda>s. ((\<lambda>t. target_update t [1, 5]) ^^ s) [0, 5] ! 0) \<longlonglongrightarrow> 1"
proof -
  have h: "length [0::real, 5] = length [1::real, 5] \<and> (0::nat) < length [1::real, 5]" by simp
  from smoothing_convergence [of "[0, 5]" "[1, 5]" 0 2] h
  have "target_update [0, 5] [1, 5] ! 0 = (1 - TAU) * [0, 5] ! 0 + TAU * [1, 5] ! 0"
    "((\<lambda>t. target_update t [1, 5]) ^^ 2) [0, 5] ! 0 - [1, 5] ! 0 =
         (1 - TAU) ^ 2 * ([0, 5] ! 0 - [1, 5] ! 0)"
    "(\<lambda>s. ((\<lambda>t. target_update t [1, 5]) ^^ s) [0, 5] ! 0) \<longlonglongrightarrow> [1, 5] ! 0"
    by blast+
  then show ?thesis by simp
qed

section \<open>Properties of the two threads\<close>

lemma mutex_producer_step: "mutex s \<Longrightarrow> mutex (producer_step orc s)"
  unfolding mutex_def producer_step_def
  by (cases "ppc s"; cases "lpc s") (auto split: prod.splits sum.splits)

lemma mutex_learner_step: "mutex s \<Longrightarrow> mutex (learner_step orc n num s)"
  unfolding mutex_def learner_step_def
  by (cases "lpc s"; cases "ppc s") (auto split: prod.splits sum.splits)
























lemma broadcast_to_as_row: "broadcast_to d v = Inr row \<Longrightarrow> row = as_row d v"
  by (auto simp: broadcast_to_def as_row_def split: if_splits)

lemma set_row_as_row:
  assumes "set_row a p v = Inr a'" "0 \<le> p"
  shows "a' = a\<lparr>rws := (rws a)[nat p := as_row (ncols a) v]\<rparr>"
  using assms
  by (auto simp: set_row_def np_index_def bind_err_Inr_iff dest!: broadcast_to_as_row
      split: if_splits)

lemma assign_state_Inr:
  assumes "buffer_ok b" "assign_state b v = Inr b'"
  shows "b' = b\<lparr>state := (state b)\<lparr>rws := (rws (state b))[nat (pointer b) :=
                      as_row (ncols (state b)) v]\<rparr>\<rparr>"
proof -
  from assms(1) have p: "0 \<le> pointer b" by (simp add: buffer_ok_def)
  from assms(2) obtain a where a: "set_row (state b) (pointer b) v = Inr a" and b': "b' = b\<lparr>state := a\<rparr>"
    by (auto simp: assign_state_def bind_err_Inr_iff)
  from set_row_as_row[OF a p] b' show ?thesis by simp
qed

lemma assign_reward_Inr:
  assumes "buffer_ok b" "assign_reward b r = Inr b'"
  shows "b' = b\<lparr>reward := (reward b)\<lparr>rws := (rws (reward b))[nat (pointer b) := [r]]\<rparr>\<rparr>"
proof -
  from assms(1) have p: "0 \<le> pointer b" and n: "ncols (reward b) = 1"
    by (simp_all add: buffer_ok_def)
  from assms(2) obtain a where a: "set_row (reward b) (pointer b) [r] = Inr a"
    and b': "b' = b\<lparr>reward := a\<rparr>"
    by (auto simp: assign_reward_def bind_err_Inr_iff)
  from set_row_as_row[OF a p] b' n show ?thesis by (simp add: as_row_def)
qed

lemma assign_s_next_Inr:
  assumes "buffer_ok b" "assign_s_next b v = Inr b'"
  shows "b' = b\<lparr>s_next := (s_next b)\<lparr>rws := (rws (s_next b))[nat (pointer b) :=
                      as_row (ncols (state b)) v]\<rparr>\<rparr>"
proof -
  from assms(1) have p: "0 \<le> pointer b" and n: "ncols (s_next b) = ncols (state b)"
    by (simp_all add: buffer_ok_def)
  from assms(2) obtain a where a: "set_row (s_next b) (pointer b) v = Inr a"
    and b': "b' = b\<lparr>s_next := a\<rparr>"
    by (auto simp: assign_s_next_def bind_err_Inr_iff)
  from set_row_as_row[OF a p] b' n show ?thesis by simp
qed

lemma advance_pointer_Inr:
  "advance_pointer b = Inr b' \<Longrightarrow> b' = b\<lparr>pointer := (pointer b + 1) mod capacity b\<rparr>"
  by (auto simp: advance_pointer_def split: if_splits)

lemma buffer_ok_assign_state:
  "buffer_ok b \<Longrightarrow> assign_state b v = Inr b' \<Longrightarrow>
   buffer_ok b' \<and> capacity b' = capacity b \<and> ncols (state b') = ncols (state b)"
  by (frule (1) assign_state_Inr) (simp add: buffer_ok_def)

lemma buffer_ok_assign_reward:
  "buffer_ok b \<Longrightarrow> assign_reward b r = Inr b' \<Longrightarrow>
   buffer_ok b' \<and> capacity b' = capacity b \<and> ncols (state b') = ncols (state b)"
  by (frule (1) assign_reward_Inr) (simp add: buffer_ok_def)

lemma buffer_ok_assign_s_next:
  "buffer_ok b \<Longrightarrow> assign_s_next b v = Inr b' \<Longrightarrow>
   buffer_ok b' \<and> capacity b' = capacity b \<and> ncols (state b') = ncols (state b)"
  by (frule (1) assign_s_next_Inr) (simp add: buffer_ok_def)

lemma buffer_ok_advance_pointer:
  "buffer_ok b \<Longrightarrow> advance_pointer b = Inr b' \<Longrightarrow>
   buffer_ok b' \<and> capacity b' = capacity b \<and> ncols (state b') = ncols (state b)"
  by (frule advance_pointer_Inr) (simp add: buffer_ok_def)

lemma shape_producer_step: "shape d c s \<Longrightarrow> shape d c (producer_step orc s)"
  unfolding shape_def producer_step_def
  by (cases "ppc s")
     (auto split: prod.splits sum.splits
        dest: buffer_ok_assign_state buffer_ok_assign_reward buffer_ok_assign_s_next
          buffer_ok_advance_pointer)

lemma buf_learner_step: "buf (learner_step orc n num s) = buf s"
  unfolding learner_step_def by (cases "lpc s") (auto split: prod.splits sum.splits)

lemma shape_learner_step: "shape d c s \<Longrightarrow> shape d c (learner_step orc n num s)"
  by (simp add: shape_def buf_learner_step)

lemma from_one_write_mono:
  "from_one_write d r0 ws t \<Longrightarrow> set ws \<subseteq> set ws' \<Longrightarrow> from_one_write d r0 ws' t"
  by (auto simp: from_one_write_def)

lemma rows_inv_not_cs:
  "rows_inv d r0 s \<Longrightarrow> \<not> p_in_cs (ppc s) \<Longrightarrow> all_rows_ok d r0 s"
  unfolding rows_inv_def by (cases "ppc s") simp_all

lemma all_rows_other: "all_rows_ok d r0 s \<Longrightarrow> other_rows_ok d r0 s"
  by (simp add: all_rows_ok_def other_rows_ok_def)

text \<open>The four statements of the store, one by one.\<close>

lemma rows_WriteS:
  assumes sh: "shape d c s" and pc: "ppc s = P_WriteS" and inv: "rows_inv d r0 s"
    and st: "assign_state (buf s) (p_s s) = Inr b"
  shows "rows_inv d r0 (s\<lparr>buf := b, ppc := P_WriteR\<rparr>)"
proof -
  from sh have ok: "buffer_ok (buf s)" and d: "ncols (state (buf s)) = d"
    by (simp_all add: shape_def)
  note b = assign_state_Inr[OF ok st]
  from ok have len: "nat (pointer (buf s)) < length (rws (state (buf s)))"
    by (simp add: buffer_ok_def)
  from inv pc have a: "all_rows_ok d r0 s" and w: "(p_s s, p_r s, p_sn s) \<in> set (writes s)"
    by (simp_all add: rows_inv_def)
  have "row_at b i = row_at (buf s) i" if "i \<noteq> nat (pointer (buf s))" for i
    using that by (simp add: b row_at_def)
  with a have "other_rows_ok d r0 (s\<lparr>buf := b, ppc := P_WriteR\<rparr>)"
    by (simp add: all_rows_ok_def other_rows_ok_def b)
  moreover have "rws (state b) ! nat (pointer b) = as_row d (p_s s)"
    using len by (simp add: b d)
  ultimately show ?thesis using w by (simp add: rows_inv_def)
qed

lemma rows_WriteR:
  assumes sh: "shape d c s" and pc: "ppc s = P_WriteR" and inv: "rows_inv d r0 s"
    and st: "assign_reward (buf s) (p_r s) = Inr b"
  shows "rows_inv d r0 (s\<lparr>buf := b, ppc := P_WriteN\<rparr>)"
proof -
  from sh have ok: "buffer_ok (buf s)" by (simp add: shape_def)
  note b = assign_reward_Inr[OF ok st]
  from ok have len: "nat (pointer (buf s)) < length (rws (reward (buf s)))"
    by (simp add: buffer_ok_def)
  from inv pc have a: "other_rows_ok d r0 s" and w: "(p_s s, p_r s, p_sn s) \<in> set (writes s)"
    and r: "rws (state (buf s)) ! nat (pointer (buf s)) = as_row d (p_s s)"
    by (simp_all add: rows_inv_def)
  have "row_at b i = row_at (buf s) i" if "i \<noteq> nat (pointer (buf s))" for i
    using that by (simp add: b row_at_def)
  with a have "other_rows_ok d r0 (s\<lparr>buf := b, ppc := P_WriteN\<rparr>)"
    by (simp add: other_rows_ok_def b)
  moreover have "rws (reward b) ! nat (pointer b) = [p_r s]"
    using len by (simp add: b)
  moreover have "rws (state b) ! nat (pointer b) = as_row d (p_s s)"
    using r by (simp add: b)
  ultimately show ?thesis using w by (simp add: rows_inv_def)
qed

lemma rows_WriteN:
  assumes sh: "shape d c s" and pc: "ppc s = P_WriteN" and inv: "rows_inv d r0 s"
    and st: "assign_s_next (buf s) (p_sn s) = Inr b"
  shows "rows_inv d r0 (s\<lparr>buf := b, ppc := P_Advance\<rparr>)"
proof -
  from sh have ok: "buffer_ok (buf s)" and d: "ncols (state (buf s)) = d"
    by (simp_all add: shape_def)
  note b = assign_s_next_Inr[OF ok st]
  from ok have len: "nat (pointer (buf s)) < length (rws (s_next (buf s)))"
    by (simp add: buffer_ok_def)
  from inv pc have a: "other_rows_ok d r0 s" and w: "(p_s s, p_r s, p_sn s) \<in> set (writes s)"
    and r: "rws (state (buf s)) ! nat (pointer (buf s)) = as_row d (p_s s)"
       "rws (reward (buf s)) ! nat (pointer (buf s)) = [p_r s]"
    by (simp_all add: rows_inv_def)
  have o: "row_at b i = row_at (buf s) i" if "i \<noteq> nat (pointer (buf s))" for i
    using that by (simp add: b row_at_def)
  have "row_at b (nat (pointer (buf s))) = written_row d (p_s s, p_r s, p_sn s)"
    using r len by (simp add: b d row_at_def written_row_def)
  with w have p: "from_one_write d r0 (writes s) (row_at b (nat (pointer (buf s))))"
    by (auto simp: from_one_write_def)
  have "from_one_write d r0 (writes s) (row_at b i)" if "i < nat (capacity (buf s))" for i
    using that a o p by (cases "i = nat (pointer (buf s))") (auto simp: other_rows_ok_def)
  then have "all_rows_ok d r0 (s\<lparr>buf := b, ppc := P_Advance\<rparr>)"
    by (simp add: all_rows_ok_def b)
  then show ?thesis by (simp add: rows_inv_def)
qed

lemma rows_Advance:
  assumes pc: "ppc s = P_Advance" and inv: "rows_inv d r0 s"
    and st: "advance_pointer (buf s) = Inr b"
  shows "rows_inv d r0 (s\<lparr>buf := b, ppc := P_Release\<rparr>)"
proof -
  note b = advance_pointer_Inr[OF st]
  from inv pc have "all_rows_ok d r0 s" by (simp add: rows_inv_def)
  then have "all_rows_ok d r0 (s\<lparr>buf := b, ppc := P_Release\<rparr>)"
    by (simp add: all_rows_ok_def b row_at_def)
  then show ?thesis by (simp add: rows_inv_def)
qed

lemma rows_Acquire:
  assumes pc: "ppc s = P_Acquire" and inv: "rows_inv d r0 s"
  shows "rows_inv d r0 (s\<lparr>lock := True, ppc := P_WriteS,
                 writes := writes s @ [(p_s s, p_r s, p_sn s)]\<rparr>)"
proof -
  from inv pc have "all_rows_ok d r0 s" by (simp add: rows_inv_def)
  then have "all_rows_ok d r0 (s\<lparr>lock := True, ppc := P_WriteS,
                 writes := writes s @ [(p_s s, p_r s, p_sn s)]\<rparr>)"
    by (auto simp: all_rows_ok_def from_one_write_def)
  then show ?thesis by (simp add: rows_inv_def)
qed

lemma rows_inv_producer_step:
  assumes sh: "shape d c s" and inv: "rows_inv d r0 s"
  shows "rows_inv d r0 (producer_step orc s)"
proof (cases "ppc s")
  case P_While
  with inv show ?thesis
    by (simp add: producer_step_def rows_inv_def all_rows_ok_def)
next
  case P_Reset
  with inv show ?thesis
    by (simp add: producer_step_def rows_inv_def all_rows_ok_def split: prod.splits)
next
  case P_For
  with inv show ?thesis
    by (simp add: producer_step_def rows_inv_def all_rows_ok_def)
next
  case P_Step
  with inv show ?thesis
    by (simp add: producer_step_def rows_inv_def all_rows_ok_def split: prod.splits)
next
  case P_Acquire
  with inv rows_Acquire[OF P_Acquire inv] show ?thesis
    by (simp add: producer_step_def)
next
  case P_WriteS
  show ?thesis
  proof (cases "assign_state (buf s) (p_s s)")
    case (Inl e)
    with P_WriteS show ?thesis by (simp add: producer_step_def rows_inv_def)
  next
    case (Inr b)
    with P_WriteS rows_WriteS[OF sh P_WriteS inv Inr] show ?thesis
      by (simp add: producer_step_def)
  qed
next
  case P_WriteR
  show ?thesis
  proof (cases "assign_reward (buf s) (p_r s)")
    case (Inl e)
    with P_WriteR show ?thesis by (simp add: producer_step_def rows_inv_def)
  next
    case (Inr b)
    with P_WriteR rows_WriteR[OF sh P_WriteR inv Inr] show ?thesis
      by (simp add: producer_step_def)
  qed
next
  case P_WriteN
  show ?thesis
  proof (cases "assign_s_next (buf s) (p_sn s)")
    case (Inl e)
    with P_WriteN show ?thesis by (simp add: producer_step_def rows_inv_def)
  next
    case (Inr b)
    with P_WriteN rows_WriteN[OF sh P_WriteN inv Inr] show ?thesis
      by (simp add: producer_step_def)
  qed
next
  case P_Advance
  show ?thesis
  proof (cases "advance_pointer (buf s)")
    case (Inl e)
    with P_Advance show ?thesis by (simp add: producer_step_def rows_inv_def)
  next
    case (Inr b)
    with P_Advance rows_Advance[OF P_Advance inv Inr] show ?thesis
      by (simp add: producer_step_def)
  qed
next
  case P_Release
  with inv show ?thesis
    by (simp add: producer_step_def rows_inv_def all_rows_ok_def)
next
  case P_Exit
  with inv show ?thesis by (simp add: producer_step_def)
next
  case (P_Crashed e)
  with inv show ?thesis by (simp add: producer_step_def)
qed

lemma rows_inv_learner_step:
  assumes "rows_inv d r0 s"
  shows "rows_inv d r0 (learner_step orc n num s)"
proof -
  have "ppc (learner_step orc n num s) = ppc s \<and> buf (learner_step orc n num s) = buf s \<and>
        writes (learner_step orc n num s) = writes s \<and> p_s (learner_step orc n num s) = p_s s \<and>
        p_r (learner_step orc n num s) = p_r s \<and> p_sn (learner_step orc n num s) = p_sn s"
    unfolding learner_step_def by (cases "lpc s") (auto split: prod.splits sum.splits)
  then have e: "ppc (learner_step orc n num s) = ppc s" "buf (learner_step orc n num s) = buf s"
    "writes (learner_step orc n num s) = writes s" "p_s (learner_step orc n num s) = p_s s"
    "p_r (learner_step orc n num s) = p_r s" "p_sn (learner_step orc n num s) = p_sn s"
    by simp_all
  have a: "all_rows_ok d r0 (learner_step orc n num s) = all_rows_ok d r0 s"
    by (simp add: all_rows_ok_def e)
  have o: "other_rows_ok d r0 (learner_step orc n num s) = other_rows_ok d r0 s"
    by (simp add: other_rows_ok_def e)
  from assms show ?thesis
    by (cases "ppc s") (simp_all add: rows_inv_def e a o)
qed

lemma take_rows_gathered: "take_rows a idx = Inr g \<Longrightarrow> gathered a idx g"
  by (auto simp: take_rows_def gathered_def split: if_splits)

lemma batch_ok_mono:
  "batch_ok d r0 ws bt \<Longrightarrow> set ws \<subseteq> set ws' \<Longrightarrow> batch_ok d r0 ws' bt"
  unfolding batch_ok_def list_all_iff by (blast intro: from_one_write_mono)

lemma zip3_map:
  "zip (map f xs) (zip (map g xs) (map h xs)) = map (\<lambda>x. (f x, g x, h x)) xs"
  by (induction xs) simp_all

lemma gathered_batch_ok:
  assumes sh: "shape d c s" and rows: "all_rows_ok d r0 s"
    and gs: "gathered (state (buf s)) idx st"
    and gr: "gathered (reward (buf s)) idx rw"
    and gn: "gathered (s_next (buf s)) idx sn"
  shows "batch_ok d r0 (writes s) (st, rw, sn)"
proof -
  define m where "m = nat (capacity (buf s))"
  from sh have len: "length (rws (state (buf s))) = m" "length (rws (reward (buf s))) = m"
    "length (rws (s_next (buf s))) = m"
    by (simp_all add: shape_def buffer_ok_def m_def)
  define norm where "norm = (\<lambda>i. nat (if i < 0 then int m + i else i))"
  from gs gr gn have
    st: "rws st = map (\<lambda>i. rws (state (buf s)) ! norm i) idx" and
    rw: "rws rw = map (\<lambda>i. rws (reward (buf s)) ! norm i) idx" and
    sn: "rws sn = map (\<lambda>i. rws (s_next (buf s)) ! norm i) idx" and
    v: "\<forall>i \<in> set idx. - int m \<le> i \<and> i < int m"
    by (simp_all add: gathered_def len norm_def)
  have rows_eq: "batch_rows (st, rw, sn) = map (\<lambda>i. row_at (buf s) (norm i)) idx"
    by (simp add: batch_rows_def st rw sn zip3_map row_at_def)
  have "from_one_write d r0 (writes s) (row_at (buf s) (norm i))" if "i \<in> set idx" for i
  proof -
    from v that have "norm i < m" by (auto simp: norm_def)
    with rows show ?thesis by (simp add: all_rows_ok_def m_def)
  qed
  then have "list_all (from_one_write d r0 (writes s)) (batch_rows (st, rw, sn))"
    by (simp add: rows_eq list_all_iff)
  then show ?thesis by (simp add: batch_ok_def st rw sn)
qed

lemma gather_inv_learner_step:
  assumes sh: "shape d c s" and mu: "mutex s" and rows: "rows_inv d r0 s"
    and inv: "gather_inv d r0 s"
  shows "gather_inv d r0 (learner_step orc n num s)"
proof -
  from inv have bs: "list_all (batch_ok d r0 (writes s)) (batches s)"
    by (simp add: gather_inv_def)
  show ?thesis
  proof (cases "lpc s")
    case L_GatherS
    with bs show ?thesis
      by (auto simp: learner_step_def gather_inv_def dest: take_rows_gathered split: sum.splits)
  next
    case L_GatherR
    with bs inv show ?thesis
      by (auto simp: learner_step_def gather_inv_def dest: take_rows_gathered split: sum.splits)
  next
    case L_GatherN
    with inv have gs: "gathered (state (buf s)) (l_idx s) (l_st s)"
      and gr: "gathered (reward (buf s)) (l_idx s) (l_rw s)"
      by (simp_all add: gather_inv_def)
    from mu L_GatherN have "\<not> p_in_cs (ppc s)" by (simp add: mutex_def)
    with rows have all: "all_rows_ok d r0 s" by (rule rows_inv_not_cs)
    show ?thesis
    proof (cases "take_rows (s_next (buf s)) (l_idx s)")
      case (Inl e)
      with L_GatherN bs show ?thesis by (simp add: learner_step_def gather_inv_def)
    next
      case (Inr a)
      then have "gathered (s_next (buf s)) (l_idx s) a" by (rule take_rows_gathered)
      from gathered_batch_ok[OF sh all gs gr this]
      have "batch_ok d r0 (writes s) (l_st s, l_rw s, a)" .
      with L_GatherN Inr bs show ?thesis by (simp add: learner_step_def gather_inv_def)
    qed
  qed (use bs in \<open>auto simp: learner_step_def gather_inv_def split: prod.splits sum.splits\<close>)
qed

lemma producer_step_frame:
  "lpc (producer_step orc s) = lpc s \<and> l_idx (producer_step orc s) = l_idx s \<and>
   l_st (producer_step orc s) = l_st s \<and> l_rw (producer_step orc s) = l_rw s \<and>
   batches (producer_step orc s) = batches s \<and>
   set (writes s) \<subseteq> set (writes (producer_step orc s)) \<and>
   (lock s \<and> \<not> p_in_cs (ppc s) \<longrightarrow> buf (producer_step orc s) = buf s)"
  unfolding producer_step_def by (cases "ppc s") (auto split: prod.splits sum.splits)

lemma gather_inv_producer_step:
  assumes mu: "mutex s" and inv: "gather_inv d r0 s"
  shows "gather_inv d r0 (producer_step orc s)"
proof -
  note f = producer_step_frame[of orc s]
  from inv have "list_all (batch_ok d r0 (writes s)) (batches s)"
    by (simp add: gather_inv_def)
  then have bs: "list_all (batch_ok d r0 (writes (producer_step orc s))) (batches (producer_step orc s))"
    using f unfolding list_all_iff by (auto intro: batch_ok_mono)
  have b: "buf (producer_step orc s) = buf s" if "l_in_cs (lpc s)"
    using that mu f by (simp add: mutex_def)
  show ?thesis
  proof (cases "lpc s")
    case L_GatherR
    with inv b bs f show ?thesis by (simp add: gather_inv_def)
  next
    case L_GatherN
    with inv b bs f show ?thesis by (simp add: gather_inv_def)
  qed (use bs f in \<open>simp_all add: gather_inv_def\<close>)
qed

lemma sys_inv_thread_step:
  assumes "sys_inv d c r0 s"
  shows "sys_inv d c r0 (thread_step orc n num t s)"
proof -
  from assms have sh: "shape d c s" and mu: "mutex s" and rows: "rows_inv d r0 s"
    and g: "gather_inv d r0 s"
    by (simp_all add: sys_inv_def)
  show ?thesis
  proof (cases t)
    case Producer
    then show ?thesis
      by (simp add: thread_step_def sys_inv_def shape_producer_step[OF sh]
          mutex_producer_step[OF mu] rows_inv_producer_step[OF sh rows]
          gather_inv_producer_step[OF mu g])
  next
    case Learner
    then show ?thesis
      by (simp add: thread_step_def sys_inv_def shape_learner_step[OF sh]
          mutex_learner_step[OF mu] rows_inv_learner_step[OF rows]
          gather_inv_learner_step[OF sh mu rows g])
  qed
qed

lemma sys_inv_run:
  "sys_inv d c r0 s \<Longrightarrow> sys_inv d c r0 (run orc n num sched s)"
  by (induction sched arbitrary: s) (simp_all add: sys_inv_thread_step)

lemma sys_inv_init:
  assumes "buffer_ok b0"
  shows "sys_inv (ncols (state b0)) (capacity b0) (initial_rows b0) (init_sys b0 m0 w0)"
  using assms
  by (simp add: sys_inv_def shape_def mutex_def rows_inv_def gather_inv_def init_sys_def
      all_rows_ok_def from_one_write_def initial_rows_def)

text \<open>
  The statements of the two critical sections, taken together, are the two methods of the
  store.
\<close>

lemma sample_by_steps:
  assumes pc: "lpc s = L_Draw" and dr: "o_draw orc (world s) = (raw, w1)"
  shows "case sample (buf s) num raw of
           Inl e \<Rightarrow> lpc (run orc n num [Learner, Learner, Learner, Learner] s) = L_Crashed e
         | Inr (bt, b) \<Rightarrow>
             b = buf s \<and>
             lpc (run orc n num [Learner, Learner, Learner, Learner] s) = L_Release \<and>
             batches (run orc n num [Learner, Learner, Learner, Learner] s) = batches s @ [bt] \<and>
             buf (run orc n num [Learner, Learner, Learner, Learner] s) = buf s"
proof (cases "randint 0 (capacity (buf s)) num raw")
  case (Inl e)
  with pc dr show ?thesis
    by (simp add: thread_step_def learner_step_def sample_def bind_err_def)
next
  case r: (Inr idx)
  show ?thesis
  proof (cases "take_rows (state (buf s)) idx")
    case (Inl e)
    with pc dr r show ?thesis
      by (simp add: thread_step_def learner_step_def sample_def bind_err_def)
  next
    case a: (Inr st)
    show ?thesis
    proof (cases "take_rows (reward (buf s)) idx")
      case (Inl e)
      with pc dr r a show ?thesis
        by (simp add: thread_step_def learner_step_def sample_def bind_err_def)
    next
      case b: (Inr rw)
      show ?thesis
      proof (cases "take_rows (s_next (buf s)) idx")
        case (Inl e)
        with pc dr r a b show ?thesis
          by (simp add: thread_step_def learner_step_def sample_def bind_err_def)
      next
        case (Inr sn)
        with pc dr r a b show ?thesis
          by (simp add: thread_step_def learner_step_def sample_def bind_err_def)
      qed
    qed
  qed
qed

lemma store_transition_by_steps:
  assumes pc: "ppc s = P_WriteS"
  shows "case store_transition (buf s) (p_s s) (p_r s) (p_sn s) of
           Inl e \<Rightarrow> ppc (run orc n num [Producer, Producer, Producer, Producer] s) = P_Crashed e
         | Inr b \<Rightarrow>
             ppc (run orc n num [Producer, Producer, Producer, Producer] s) = P_Release \<and>
             buf (run orc n num [Producer, Producer, Producer, Producer] s) = b"
proof (cases "assign_state (buf s) (p_s s)")
  case (Inl e)
  with pc show ?thesis
    by (simp add: thread_step_def producer_step_def store_transition_def bind_err_def)
next
  case a: (Inr b1)
  show ?thesis
  proof (cases "assign_reward b1 (p_r s)")
    case (Inl e)
    with pc a show ?thesis
      by (simp add: thread_step_def producer_step_def store_transition_def bind_err_def)
  next
    case b: (Inr b2)
    show ?thesis
    proof (cases "assign_s_next b2 (p_sn s)")
      case (Inl e)
      with pc a b show ?thesis
        by (simp add: thread_step_def producer_step_def store_transition_def bind_err_def)
    next
      case c: (Inr b3)
      show ?thesis
      proof (cases "advance_pointer b3")
        case (Inl e)
        with pc a b c show ?thesis
          by (simp add: thread_step_def producer_step_def store_transition_def bind_err_def)
      next
        case (Inr b4)
        with pc a b c show ?thesis
          by (simp add: thread_step_def producer_step_def store_transition_def bind_err_def)
      qed
    qed
  qed
qed

lemma handed_thread_step:
  assumes "lpc s = L_Release \<or> lpc s = L_Train \<longrightarrow>
             batches s \<noteq> [] \<and> (l_st s, l_rw s, l_sn s) = last (batches s)"
  shows "lpc (thread_step orc n num t s) = L_Release \<or> lpc (thread_step orc n num t s) = L_Train \<longrightarrow>
           batches (thread_step orc n num t s) \<noteq> [] \<and>
           (l_st (thread_step orc n num t s), l_rw (thread_step orc n num t s),
            l_sn (thread_step orc n num t s)) = last (batches (thread_step orc n num t s))"
proof (cases t)
  case Producer
  have "lpc (producer_step orc s) = lpc s \<and> l_st (producer_step orc s) = l_st s \<and>
     l_rw (producer_step orc s) = l_rw s \<and> l_sn (producer_step orc s) = l_sn s \<and>
     batches (producer_step orc s) = batches s"
    unfolding producer_step_def by (cases "ppc s") (auto split: prod.splits sum.splits)
  with assms Producer show ?thesis by (simp add: thread_step_def)
next
  case Learner
  show ?thesis
    using assms unfolding Learner thread_step_def learner_step_def
    by (cases "lpc s") (auto split: prod.splits sum.splits)
qed

lemma handed_run:
  "lpc s = L_Release \<or> lpc s = L_Train \<longrightarrow>
     batches s \<noteq> [] \<and> (l_st s, l_rw s, l_sn s) = last (batches s) \<Longrightarrow>
   lpc (run orc n num sched s) = L_Release \<or> lpc (run orc n num sched s) = L_Train \<longrightarrow>
     batches (run orc n num sched s) \<noteq> [] \<and>
     (l_st (run orc n num sched s), l_rw (run orc n num sched s), l_sn (run orc n num sched s)) =
       last (batches (run orc n num sched s))"
proof (induction sched arbitrary: s)
  case Nil
  then show ?case by simp
next
  case (Cons t ts)
  from Cons.IH[OF handed_thread_step[OF Cons.prems]] show ?case by simp
qed

text \<open>
  C3 (no partial write is visible). The threads are started on a store of positive
  capacity, the producer executing \<^verbatim>\<open>store_transition\<close> and the learner \<^verbatim>\<open>sample\<close>
  statement by statement, each between \<^verbatim>\<open>LOCK.acquire()\<close> and \<^verbatim>\<open>LOCK.release()\<close>.
  Under every interleaving, in every state reached: at most one thread is inside its
  critical section; every batch that \<^verbatim>\<open>sample\<close> has returned has three arrays of the
  same number of rows, and for every row \<open>k\<close> the state, the reward and the next state
  are together either a row that the store had when the threads were started or the row
  written by one single call of \<^verbatim>\<open>store_transition\<close>; and the batch that the learner
  carries to \<^verbatim>\<open>train\<close> is the batch that \<^verbatim>\<open>sample\<close> returned last.
\<close>

theorem no_partial_write:
  "buffer_ok b0 \<and> s = run orc n num sched (init_sys b0 m0 w0) \<longrightarrow>
     mutex s \<and>
     (\<forall>bt \<in> set (batches s).
        length (rws (fst (snd bt))) = length (rws (fst bt)) \<and>
        length (rws (snd (snd bt))) = length (rws (fst bt)) \<and>
        (\<forall>k < length (rws (fst bt)).
           (rws (fst bt) ! k, rws (fst (snd bt)) ! k, rws (snd (snd bt)) ! k)
             \<in> set (initial_rows b0) \<or>
           (\<exists>x \<in> set (writes s).
              (rws (fst bt) ! k, rws (fst (snd bt)) ! k, rws (snd (snd bt)) ! k) =
                written_row (ncols (state b0)) x))) \<and>
     (lpc s = L_Release \<or> lpc s = L_Train \<longrightarrow>
        batches s \<noteq> [] \<and> (l_st s, l_rw s, l_sn s) = last (batches s))"
proof
  assume a: "buffer_ok b0 \<and> s = run orc n num sched (init_sys b0 m0 w0)"
  then have s: "s = run orc n num sched (init_sys b0 m0 w0)" and ok: "buffer_ok b0" by simp_all
  let ?d = "ncols (state b0)"
  have inv: "sys_inv ?d (capacity b0) (initial_rows b0) s"
    unfolding s by (rule sys_inv_run[OF sys_inv_init[OF ok]])
  then have mu: "mutex s" and bs: "list_all (batch_ok ?d (initial_rows b0) (writes s)) (batches s)"
    by (simp_all add: sys_inv_def gather_inv_def)
  have rows: "length (rws (fst (snd bt))) = length (rws (fst bt)) \<and>
        length (rws (snd (snd bt))) = length (rws (fst bt)) \<and>
        (\<forall>k < length (rws (fst bt)).
           (rws (fst bt) ! k, rws (fst (snd bt)) ! k, rws (snd (snd bt)) ! k)
             \<in> set (initial_rows b0) \<or>
           (\<exists>x \<in> set (writes s).
              (rws (fst bt) ! k, rws (fst (snd bt)) ! k, rws (snd (snd bt)) ! k) =
                written_row ?d x))" if bt: "bt \<in> set (batches s)" for bt
  proof -
    from bs bt have b: "batch_ok ?d (initial_rows b0) (writes s) bt"
      by (simp add: list_all_iff)
    then have l: "length (rws (fst (snd bt))) = length (rws (fst bt))"
      "length (rws (snd (snd bt))) = length (rws (fst bt))"
      and r: "\<forall>t \<in> set (batch_rows bt). from_one_write ?d (initial_rows b0) (writes s) t"
      by (simp_all add: batch_ok_def list_all_iff)
    have "(rws (fst bt) ! k, rws (fst (snd bt)) ! k, rws (snd (snd bt)) ! k)
             \<in> set (initial_rows b0) \<or>
           (\<exists>x \<in> set (writes s).
              (rws (fst bt) ! k, rws (fst (snd bt)) ! k, rws (snd (snd bt)) ! k) =
                written_row ?d x)" if k: "k < length (rws (fst bt))" for k
    proof -
      from k l have "batch_rows bt ! k =
          (rws (fst bt) ! k, rws (fst (snd bt)) ! k, rws (snd (snd bt)) ! k)"
        "k < length (batch_rows bt)"
        by (simp_all add: batch_rows_def)
      then have "(rws (fst bt) ! k, rws (fst (snd bt)) ! k, rws (snd (snd bt)) ! k)
          \<in> set (batch_rows bt)"
        by (metis nth_mem)
      with r show ?thesis by (auto simp: from_one_write_def)
    qed
    with l show ?thesis by blast
  qed
  have h: "lpc s = L_Release \<or> lpc s = L_Train \<longrightarrow>
        batches s \<noteq> [] \<and> (l_st s, l_rw s, l_sn s) = last (batches s)"
    unfolding s by (rule handed_run) (simp add: init_sys_def)
  from mu rows h show "mutex s \<and>
     (\<forall>bt \<in> set (batches s).
        length (rws (fst (snd bt))) = length (rws (fst bt)) \<and>
        length (rws (snd (snd bt))) = length (rws (fst bt)) \<and>
        (\<forall>k < length (rws (fst bt)).
           (rws (fst bt) ! k, rws (fst (snd bt)) ! k, rws (snd (snd bt)) ! k)
             \<in> set (initial_rows b0) \<or>
           (\<exists>x \<in> set (writes s).
              (rws (fst bt) ! k, rws (fst (snd bt)) ! k, rws (snd (snd bt)) ! k) =
                written_row (ncols (state b0)) x))) \<and>
     (lpc s = L_Release \<or> lpc s = L_Train \<longrightarrow>
        batches s \<noteq> [] \<and> (l_st s, l_rw s, l_sn s) = last (batches s))"
    by blast
qed

lemma one_store_one_sample:
  "batches (run short_world 1 1
      [Producer, Producer, Producer, Producer, Producer, Producer, Producer, Producer,
       Producer, Producer, Learner, Learner, Learner, Learner, Learner, Learner]
      (init_sys \<lparr>capacity = 2, state = \<lparr>ncols = 1, rws = [[0], [0]]\<rparr>,
                 reward = \<lparr>ncols = 1, rws = [[0], [0]]\<rparr>,
                 s_next = \<lparr>ncols = 1, rws = [[0], [0]]\<rparr>, pointer = 0\<rparr> DDPGModel_init 0)) =
     [(\<lparr>ncols = 1, rws = [[2]]\<rparr>, \<lparr>ncols = 1, rws = [[1]]\<rparr>, \<lparr>ncols = 1, rws = [[1]]\<rparr>)] \<and>
   writes (run short_world 1 1
      [Producer, Producer, Producer, Producer, Producer, Producer, Producer, Producer,
       Producer, Producer, Learner, Learner, Learner, Learner, Learner, Learner]
      (init_sys \<lparr>capacity = 2, state = \<lparr>ncols = 1, rws = [[0], [0]]\<rparr>,
                 reward = \<lparr>ncols = 1, rws = [[0], [0]]\<rparr>,
                 s_next = \<lparr>ncols = 1, rws = [[0], [0]]\<rparr>, pointer = 0\<rparr> DDPGModel_init 0)) =
     [([2], 1, [1])]"
  by (simp add: thread_step_def producer_step_def learner_step_def init_sys_def
      short_world_def short_reset_def short_step_v_def short_step_def short_draw_def
      EP_MAXLEN_def DDPGModel_init_def
      assign_state_def assign_reward_def assign_s_next_def advance_pointer_def
      set_row_def np_index_def broadcast_to_def bind_err_def randint_def take_rows_def)

theorem no_partial_write_witness:
  "buffer_ok \<lparr>capacity = 2, state = \<lparr>ncols = 1, rws = [[0], [0]]\<rparr>,
                 reward = \<lparr>ncols = 1, rws = [[0], [0]]\<rparr>,
                 s_next = \<lparr>ncols = 1, rws = [[0], [0]]\<rparr>, pointer = 0\<rparr> \<and>
   batches (run short_world 1 1
      [Producer, Producer, Producer, Producer, Producer, Producer, Producer, Producer,
       Producer, Producer, Learner, Learner, Learner, Learner, Learner, Learner]
      (init_sys \<lparr>capacity = 2, state = \<lparr>ncols = 1, rws = [[0], [0]]\<rparr>,
                 reward = \<lparr>ncols = 1, rws = [[0], [0]]\<rparr>,
                 s_next = \<lparr>ncols = 1, rws = [[0], [0]]\<rparr>, pointer = 0\<rparr> DDPGModel_init 0)) =
     [(\<lparr>ncols = 1, rws = [[2]]\<rparr>, \<lparr>ncols = 1, rws = [[1]]\<rparr>, \<lparr>ncols = 1, rws = [[1]]\<rparr>)] \<and>
   (([2], [1], [1]) \<in> set (initial_rows \<lparr>capacity = 2, state = \<lparr>ncols = 1, rws = [[0], [0]]\<rparr>,
                 reward = \<lparr>ncols = 1, rws = [[0], [0]]\<rparr>,
                 s_next = \<lparr>ncols = 1, rws = [[0], [0]]\<rparr>, pointer = 0\<rparr>) \<or>
    (\<exists>x \<in> set [([2], 1, [1])]. ([2], [1], [1]) = written_row 1 x))"
proof -
  let ?b0 = "\<lparr>capacity = 2, state = \<lparr>ncols = 1, rws = [[0], [0]]\<rparr>,
                 reward = \<lparr>ncols = 1, rws = [[0], [0]]\<rparr>,
                 s_next = \<lparr>ncols = 1, rws = [[0], [0]]\<rparr>, pointer = 0\<rparr>"
  let ?sched = "[Producer, Producer, Producer, Producer, Producer, Producer, Producer, Producer,
       Producer, Producer, Learner, Learner, Learner, Learner, Learner, Learner]"
  let ?s = "run short_world 1 1 ?sched (init_sys ?b0 DDPGModel_init 0)"
  let ?bt = "(\<lparr>ncols = 1, rws = [[2]]\<rparr>, \<lparr>ncols = 1, rws = [[1]]\<rparr>, \<lparr>ncols = 1, rws = [[1::real]]\<rparr>)"
  have ok: "buffer_ok ?b0" by (simp add: buffer_ok_def)
  have bs: "batches ?s = [?bt]" and ws: "writes ?s = [([2], 1, [1])]"
    using one_store_one_sample by blast+
  from no_partial_write [of ?b0 ?s short_world 1 1 ?sched DDPGModel_init 0] ok
  have "\<forall>bt \<in> set (batches ?s). \<forall>k < length (rws (fst bt)).
           (rws (fst bt) ! k, rws (fst (snd bt)) ! k, rws (snd (snd bt)) ! k)
             \<in> set (initial_rows ?b0) \<or>
           (\<exists>x \<in> set (writes ?s).
              (rws (fst bt) ! k, rws (fst (snd bt)) ! k, rws (snd (snd bt)) ! k) =
                written_row (ncols (state ?b0)) x)"
    by blast
  then have "\<forall>k < length (rws (fst ?bt)).
           (rws (fst ?bt) ! k, rws (fst (snd ?bt)) ! k, rws (snd (snd ?bt)) ! k)
             \<in> set (initial_rows ?b0) \<or>
           (\<exists>x \<in> set [([2], 1, [1])].
              (rws (fst ?bt) ! k, rws (fst (snd ?bt)) ! k, rws (snd (snd ?bt)) ! k) =
                written_row (ncols (state ?b0)) x)"
    unfolding bs ws by simp
  then have "([2], [1], [1]) \<in> set (initial_rows ?b0) \<or>
    (\<exists>x \<in> set [([2], 1, [1])]. ([2], [1], [1::real]) = written_row 1 x)"
    by simp
  with ok bs show ?thesis by blast
qed

end
